theory Spec2Isabelle
  imports Main
begin

section \<open>Go strings\<close>

text \<open>
  A Go string is a sequence of UTF-8 bytes. Every string this program handles comes out
  of the JSON decoder or out of a literal of the source, so it is valid UTF-8, and it is
  modelled as the list of its code points. \<open>len\<close> counts bytes, as Go's builtin does:
  one to four per code point. \<open>str\<close> embeds an ASCII literal of the source.
\<close>

type_synonym rune = nat
type_synonym gostring = "rune list"

definition str :: "string \<Rightarrow> gostring" where
  "str s = map of_char s"

definition utf8len :: "rune \<Rightarrow> nat" where
  "utf8len r = (if r < 0x80 then 1 else if r < 0x800 then 2 else if r < 0x10000 then 3 else 4)"

definition len :: "gostring \<Rightarrow> int" where
  "len s = int (sum_list (map utf8len s))"

text \<open>
  Go's \<open>int\<close> has 64 bits and its arithmetic wraps around. \<open>int64 x\<close> is the value an
  \<open>int\<close> holds after a computation whose mathematical result is \<open>x\<close>. It is written
  out where the operands do not already keep the result in range.
\<close>

definition int64 :: "int \<Rightarrow> int" where
  "int64 x = (x + 2 ^ 63) mod 2 ^ 64 - 2 ^ 63"

text \<open>\<open>unicode.IsSpace\<close>: the code points with the Unicode White_Space property.\<close>

definition isSpace :: "rune \<Rightarrow> bool" where
  "isSpace r \<longleftrightarrow>
     (0x09 \<le> r \<and> r \<le> 0x0D) \<or> r = 0x20 \<or> r = 0x85 \<or> r = 0xA0 \<or> r = 0x1680 \<or>
     (0x2000 \<le> r \<and> r \<le> 0x200A) \<or> r = 0x2028 \<or> r = 0x2029 \<or> r = 0x202F \<or>
     r = 0x205F \<or> r = 0x3000"

text \<open>
  \<open>strings.Fields\<close>: the maximal runs of non-space code points, left to right.
  \<open>fieldsFrom cur s\<close> scans \<open>s\<close> with the word in progress in \<open>cur\<close>.
\<close>

fun fieldsFrom :: "gostring \<Rightarrow> gostring \<Rightarrow> gostring list" where
  "fieldsFrom cur [] = (if cur = [] then [] else [cur])"
| "fieldsFrom cur (c # cs) =
     (if isSpace c then (if cur = [] then [] else [cur]) @ fieldsFrom [] cs
      else fieldsFrom (cur @ [c]) cs)"

definition Fields :: "gostring \<Rightarrow> gostring list" where
  "Fields s = fieldsFrom [] s"

text \<open>\<open>strings.TrimSpace\<close>, \<open>strings.TrimRight\<close> (the second argument is a set of
  code points), \<open>strings.HasPrefix\<close>, \<open>strings.Join\<close>.\<close>

definition TrimSpace :: "gostring \<Rightarrow> gostring" where
  "TrimSpace s = rev (dropWhile isSpace (rev (dropWhile isSpace s)))"

definition TrimRight :: "gostring \<Rightarrow> gostring \<Rightarrow> gostring" where
  "TrimRight s cutset = rev (dropWhile (\<lambda>r. r \<in> set cutset) (rev s))"

definition HasPrefix :: "gostring \<Rightarrow> gostring \<Rightarrow> bool" where
  "HasPrefix s prefix \<longleftrightarrow> take (length prefix) s = prefix"

fun Join :: "gostring list \<Rightarrow> gostring \<Rightarrow> gostring" where
  "Join [] sep = []"
| "Join [a] sep = a"
| "Join (a # b # rest) sep = a @ sep @ Join (b # rest) sep"

text \<open>
  \<open>strings.Split\<close>: the pieces of \<open>s\<close> between the occurrences of \<open>sep\<close>, found
  left to right; always at least one piece when \<open>sep\<close> is not empty. With an empty
  separator Go splits after every code point.
\<close>

function splitFrom :: "gostring \<Rightarrow> gostring \<Rightarrow> gostring \<Rightarrow> gostring list" where
  "splitFrom sep cur s =
     (if s = [] then [cur]
      else if sep \<noteq> [] \<and> HasPrefix s sep then cur # splitFrom sep [] (drop (length sep) s)
      else splitFrom sep (cur @ [hd s]) (tl s))"
  by pat_completeness auto
termination
  by (relation "measure (\<lambda>(sep, cur, s). length s)") auto

declare splitFrom.simps [simp del]

definition Split :: "gostring \<Rightarrow> gostring \<Rightarrow> gostring list" where
  "Split s sep = (if sep = [] then map (\<lambda>r. [r]) s else splitFrom sep [] s)"

section \<open>Data model (main.go)\<close>

record reviewComment =
  commentID :: gostring
  Body :: gostring
  CreatedAt :: gostring
  URL :: gostring
  AuthorLogin :: gostring

text \<open>\<open>Comments\<close> holds \<open>Comments.Nodes\<close>; the four line numbers are \<open>*int\<close>.\<close>

record reviewThread =
  ID :: gostring
  IsResolved :: bool
  IsOutdated :: bool
  Path :: gostring
  Line :: "int option"
  OriginalLine :: "int option"
  StartLine :: "int option"
  OriginalStart :: "int option"
  Comments :: "reviewComment list"

text \<open>The part of \<open>listResponse\<close> the loop reads: \<open>PageInfo\<close> and \<open>Nodes\<close>.\<close>

record listResponse =
  HasNextPage :: bool
  EndCursor :: "gostring option"
  Nodes :: "reviewThread list"

datatype error = Error gostring

section \<open>Filter engine (main.go, filterThreads)\<close>

text \<open>The body of the \<open>for _, t := range threads\<close> loop, with the slice built so far.\<close>

fun filterLoop :: "gostring \<Rightarrow> reviewThread list \<Rightarrow> reviewThread list \<Rightarrow> reviewThread list" where
  "filterLoop status filtered [] = filtered"
| "filterLoop status filtered (t # ts) =
     (if status = str ''resolved'' then
        (if IsResolved t then filterLoop status (filtered @ [t]) ts
         else filterLoop status filtered ts)
      else if status = str ''unresolved'' then
        (if \<not> IsResolved t then filterLoop status (filtered @ [t]) ts
         else filterLoop status filtered ts)
      else if status = str ''resolved-no-reply'' then
        (if IsResolved t \<and> length (Comments t) \<le> 1 then filterLoop status (filtered @ [t]) ts
         else filterLoop status filtered ts)
      else filterLoop status filtered ts)"

definition filterThreads :: "reviewThread list \<Rightarrow> gostring \<Rightarrow> reviewThread list" where
  "filterThreads threads status =
     (if status = str ''all'' then threads else filterLoop status [] threads)"

section \<open>Pagination (main.go, fetchAllThreads)\<close>

text \<open>
  \<open>client.Do\<close> is the network: a function of the server's state and of the \<open>after\<close>
  cursor sent, giving an error or a decoded page, and the server's next state. The
  \<open>for\<close> loop has no bound of its own, so it is a partial function: \<open>None\<close> is a run
  that never returns.
\<close>

type_synonym 's client = "'s \<Rightarrow> gostring option \<Rightarrow> (error + listResponse) \<times> 's"

partial_function (option) fetchLoop ::
  "'s client \<Rightarrow> 's \<Rightarrow> gostring option \<Rightarrow> reviewThread list \<Rightarrow> (error + reviewThread list) option"
where
  "fetchLoop Do s after all =
     (case Do s after of
        (Inl err, s') \<Rightarrow> Some (Inl err)
      | (Inr resp, s') \<Rightarrow>
          (let all' = all @ Nodes resp in
           if \<not> HasNextPage resp then Some (Inr all')
           else (case EndCursor resp of
                   None \<Rightarrow> Some (Inr all')
                 | Some c \<Rightarrow> if c = [] then Some (Inr all') else fetchLoop Do s' (Some c) all')))"

definition fetchAllThreads :: "'s client \<Rightarrow> 's \<Rightarrow> (error + reviewThread list) option" where
  "fetchAllThreads Do s = fetchLoop Do s None []"

text \<open>
  A page on which the loop breaks: \<open>hasNextPage\<close> is false, or the cursor is nil or
  empty. \<open>stopsWithin n Do s after\<close>: one of the next \<open>n\<close> fetches of the run that is
  at server state \<open>s\<close> with cursor \<open>after\<close> returns such a page, and none before it
  fails.
\<close>

definition lastPage :: "listResponse \<Rightarrow> bool" where
  "lastPage resp \<longleftrightarrow> \<not> HasNextPage resp \<or> EndCursor resp = None \<or> EndCursor resp = Some []"

fun stopsWithin :: "nat \<Rightarrow> 's client \<Rightarrow> 's \<Rightarrow> gostring option \<Rightarrow> bool" where
  "stopsWithin 0 Do s after = False"
| "stopsWithin (Suc n) Do s after =
     (case Do s after of
        (Inl err, s') \<Rightarrow> False
      | (Inr resp, s') \<Rightarrow> lastPage resp \<or> stopsWithin n Do s' (EndCursor resp))"

section \<open>Text reflow engine (main.go, wrapText and wrapPlainText)\<close>

text \<open>
  The loop of \<open>wrapText\<close> over \<open>words[1:]\<close>, with the line in progress and the lines
  emitted so far. \<open>width\<close> is a Go \<open>int\<close> and may be anything.
\<close>

fun wrapWords :: "int \<Rightarrow> gostring \<Rightarrow> gostring list \<Rightarrow> gostring list \<Rightarrow> gostring list" where
  "wrapWords width current lines [] = lines @ [current]"
| "wrapWords width current lines (word # rest) =
     (if len current + 1 + len word > width then wrapWords width word (lines @ [current]) rest
      else wrapWords width (current @ str '' '' @ word) lines rest)"

definition wrapText :: "gostring \<Rightarrow> int \<Rightarrow> gostring list" where
  "wrapText text width =
     (case Fields text of [] \<Rightarrow> [[]] | word # rest \<Rightarrow> wrapWords width word [] rest)"

text \<open>The closure \<open>flushParagraph\<close>, on the two variables it writes.\<close>

definition flushParagraph ::
  "gostring \<Rightarrow> int \<Rightarrow> gostring list \<times> gostring list \<Rightarrow> gostring list \<times> gostring list" where
  "flushParagraph indent maxWidth st =
     (case st of (out, paragraph) \<Rightarrow>
        if paragraph = [] then (out, paragraph)
        else (out @ map (\<lambda>wrapped. indent @ wrapped)
                      (wrapText (Join paragraph (str '' '')) (maxWidth - len indent)), []))"

definition isFenceLine :: "gostring \<Rightarrow> bool" where
  "isFenceLine line \<longleftrightarrow> HasPrefix (TrimSpace line) (str ''```'')"

text \<open>
  The body of the \<open>for _, line := range lines\<close> loop, on the three variables it
  writes: \<open>out\<close>, \<open>paragraph\<close> and \<open>inFence\<close>.
\<close>

definition lineStep ::
  "gostring \<Rightarrow> int \<Rightarrow> gostring \<Rightarrow> gostring list \<times> gostring list \<times> bool \<Rightarrow>
   gostring list \<times> gostring list \<times> bool" where
  "lineStep indent maxWidth line st =
     (case st of (out, paragraph, inFence) \<Rightarrow>
        let trimmed = TrimSpace line in
        if HasPrefix trimmed (str ''```'') then
          (case flushParagraph indent maxWidth (out, paragraph) of (out1, paragraph1) \<Rightarrow>
             let out2 = (if out1 \<noteq> [] \<and> last out1 \<noteq> indent then out1 @ [indent] else out1)
             in (out2 @ [indent @ line], paragraph1, \<not> inFence))
        else if inFence then (out @ [indent @ line], paragraph, inFence)
        else if trimmed = [] then
          (case flushParagraph indent maxWidth (out, paragraph) of (out1, paragraph1) \<Rightarrow>
             (out1 @ [indent], paragraph1, inFence))
        else (out, paragraph @ [trimmed], inFence))"

text \<open>The loop, and the \<open>flushParagraph()\<close> that follows it.\<close>

fun wrapLines ::
  "gostring \<Rightarrow> int \<Rightarrow> gostring list \<Rightarrow> gostring list \<times> gostring list \<times> bool \<Rightarrow> gostring list"
where
  "wrapLines indent maxWidth [] st =
     (case st of (out, paragraph, inFence) \<Rightarrow> fst (flushParagraph indent maxWidth (out, paragraph)))"
| "wrapLines indent maxWidth (line # rest) st =
     wrapLines indent maxWidth rest (lineStep indent maxWidth line st)"

definition bodyLines :: "gostring \<Rightarrow> gostring list" where
  "bodyLines body = Split (TrimRight body (str [CHR 0x0A])) (str [CHR 0x0A])"

definition maxWidthFor :: "gostring \<Rightarrow> int \<Rightarrow> int" where
  "maxWidthFor indent width = (if width < len indent + 20 then len indent + 20 else width)"

definition wrapPlainText :: "gostring \<Rightarrow> gostring \<Rightarrow> int \<Rightarrow> gostring list" where
  "wrapPlainText body indent width =
     (let lines = bodyLines body in
      if length lines = 0 then [indent]
      else wrapLines indent (maxWidthFor indent width) lines ([], [], False))"

section \<open>Markdown rendering with fallback (main.go, tui.go)\<close>

text \<open>
  glamour is an external library. A \<open>*glamour.TermRenderer\<close> is modelled by what its
  \<open>Render\<close> method returns, and \<open>glamour.NewTermRenderer(WithAutoStyle(), WithWordWrap(n))\<close>
  by a function of \<open>n\<close>, a parameter of every function that calls it.
\<close>

type_synonym TermRenderer = "gostring \<Rightarrow> error + gostring"

record styler =
  enabled :: bool

definition indentRendered :: "gostring \<Rightarrow> gostring \<Rightarrow> gostring list" where
  "indentRendered rendered indent =
     (let trimmed = TrimRight rendered (str [CHR 0x0A]) in
      if trimmed = [] then [indent]
      else map (\<lambda>line. indent @ line) (Split trimmed (str [CHR 0x0A])))"

definition renderMarkdown :: "(int \<Rightarrow> error + TermRenderer) \<Rightarrow> gostring \<Rightarrow> int \<Rightarrow> error + gostring" where
  "renderMarkdown NewTermRenderer body width =
     (let width' = (if width < 20 then 20 else width) in
      case NewTermRenderer width' of
        Inl err \<Rightarrow> Inl err
      | Inr renderer \<Rightarrow> renderer body)"

text \<open>\<open>width-len(indent)\<close> wraps when \<open>width\<close> is within \<open>len(indent)\<close> of the least \<open>int\<close>.\<close>

definition formatCommentBody ::
  "(int \<Rightarrow> error + TermRenderer) \<Rightarrow> gostring \<Rightarrow> gostring \<Rightarrow> int \<Rightarrow> styler \<Rightarrow> gostring list" where
  "formatCommentBody NewTermRenderer body indent width styler =
     (if enabled styler then
        (case renderMarkdown NewTermRenderer body (int64 (width - len indent)) of
           Inr rendered \<Rightarrow> indentRendered rendered indent
         | Inl err \<Rightarrow> wrapPlainText body indent width)
      else wrapPlainText body indent width)"

text \<open>The renderer argument is a pointer: \<open>None\<close> is \<open>nil\<close>.\<close>

definition formatCommentBodyWithRenderer ::
  "gostring \<Rightarrow> gostring \<Rightarrow> int \<Rightarrow> styler \<Rightarrow> TermRenderer option \<Rightarrow> gostring list" where
  "formatCommentBodyWithRenderer body indent width styler renderer =
     (if enabled styler \<and> renderer \<noteq> None then
        (case the renderer body of
           Inr rendered \<Rightarrow> indentRendered rendered indent
         | Inl err \<Rightarrow> wrapPlainText body indent width)
      else wrapPlainText body indent width)"

text \<open>The styler methods \<open>threadContent\<close> calls; \<open>0x1B\<close> is the escape character.\<close>

definition wrap :: "styler \<Rightarrow> gostring \<Rightarrow> gostring \<Rightarrow> gostring" where
  "wrap s code text =
     (if \<not> enabled s then text
      else [0x1B] @ str ''['' @ code @ str ''m'' @ text @ [0x1B] @ str ''[0m'')"

definition author :: "styler \<Rightarrow> gostring \<Rightarrow> gostring" where
  "author s text = wrap s (str ''34'') text"

definition dim :: "styler \<Rightarrow> gostring \<Rightarrow> gostring" where
  "dim s text = wrap s (str ''2'') text"

definition bullet :: "styler \<Rightarrow> gostring" where
  "bullet s = wrap s (str ''2'') [0x2022]"

section \<open>Thread browser (tui.go)\<close>

text \<open>
  \<open>viewport.Model\<close> belongs to the bubbles library. The browser reads its \<open>Width\<close>, sets
  its content and scrolls it to the top; the model keeps those fields and nothing else
  of the widget.
\<close>

record viewport_Model =
  Width :: int
  Height :: int
  content :: gostring
  YOffset :: int

definition SetContent :: "viewport_Model \<Rightarrow> gostring \<Rightarrow> viewport_Model" where
  "SetContent vp s = vp\<lparr>content := s\<rparr>"

definition GotoTop :: "viewport_Model \<Rightarrow> viewport_Model" where
  "GotoTop vp = vp\<lparr>YOffset := 0\<rparr>"

text \<open>
  \<open>tuiModel\<close>, field by field. \<open>renderCalls\<close> is not a field of the source: it counts the
  calls of \<open>formatCommentBodyWithRenderer\<close> that \<open>threadContent\<close> makes, the counter a
  test would put around the rendering pipeline.
\<close>

record tuiModel =
  allThreads :: "reviewThread list"
  threads :: "reviewThread list"
  index :: int
  width :: int
  height :: int
  ready :: bool
  viewport :: viewport_Model
  owner :: gostring
  name :: gostring
  pr :: int
  status :: gostring
  contentCache :: "gostring \<rightharpoonup> (int \<rightharpoonup> gostring)"
  rendererCache :: "int \<rightharpoonup> TermRenderer"
  renderCalls :: nat

text \<open>
  What the browser reads from the process around it: the \<open>NO_COLOR\<close> variable, whether
  standard output is a terminal, and glamour's constructor.
\<close>

record env =
  NO_COLOR :: gostring
  stdoutIsTerminal :: bool
  NewTermRenderer :: "int \<Rightarrow> error + TermRenderer"

text \<open>\<open>newStyler(os.Stdout)\<close>: standard output is an \<open>*os.File\<close>.\<close>

definition newStyler :: "env \<Rightarrow> styler" where
  "newStyler e = (if NO_COLOR e \<noteq> [] then \<lparr>enabled = False\<rparr> else \<lparr>enabled = stdoutIsTerminal e\<rparr>)"

definition newTUIModel ::
  "gostring \<Rightarrow> gostring \<Rightarrow> int \<Rightarrow> gostring \<Rightarrow> reviewThread list \<Rightarrow> tuiModel" where
  "newTUIModel owner' name' pr' status' threads' =
     \<lparr>allThreads = threads', threads = threads', index = 0, width = 0, height = 0,
      ready = False,
      viewport = \<lparr>Width = 0, Height = 0, content = [], YOffset = 0\<rparr>,
      owner = owner', name = name', pr = pr', status = status',
      contentCache = Map.empty, rendererCache = Map.empty, renderCalls = 0\<rparr>"

definition cachedContent :: "tuiModel \<Rightarrow> gostring \<Rightarrow> int \<Rightarrow> gostring" where
  "cachedContent m threadID width' =
     (if threadID = [] then []
      else (case contentCache m threadID of
              Some perThread \<Rightarrow> (case perThread width' of Some c \<Rightarrow> c | None \<Rightarrow> [])
            | None \<Rightarrow> []))"

definition storeContent :: "tuiModel \<Rightarrow> gostring \<Rightarrow> int \<Rightarrow> gostring \<Rightarrow> tuiModel" where
  "storeContent m threadID width' c =
     (if threadID = [] then m
      else (let perThread = (case contentCache m threadID of None \<Rightarrow> Map.empty | Some p \<Rightarrow> p)
            in m\<lparr>contentCache := (contentCache m)(threadID \<mapsto> perThread(width' \<mapsto> c))\<rparr>))"

definition rendererForWidth :: "env \<Rightarrow> tuiModel \<Rightarrow> int \<Rightarrow> TermRenderer option \<times> tuiModel" where
  "rendererForWidth e m width' =
     (let w = (if width' < 20 then 20 else width') in
      case rendererCache m w of
        Some cached \<Rightarrow> (Some cached, m)
      | None \<Rightarrow>
          (case NewTermRenderer e (w - 2) of
             Inl err \<Rightarrow> (None, m)
           | Inr renderer \<Rightarrow> (Some renderer, m\<lparr>rendererCache := (rendererCache m)(w \<mapsto> renderer)\<rparr>)))"

text \<open>
  The loop of \<open>threadContent\<close> over \<open>thread.Comments.Nodes\<close>, writing to the builder
  \<open>b\<close>; \<open>i < len(thread.Comments.Nodes)-1\<close> holds when comments remain. The dash of the
  format string is U+2014.
\<close>

fun writeComments ::
  "styler \<Rightarrow> styler \<Rightarrow> TermRenderer option \<Rightarrow> int \<Rightarrow> gostring \<Rightarrow> reviewComment list \<Rightarrow> gostring"
where
  "writeComments metaStyler bodyStyler renderer width' b [] = b"
| "writeComments metaStyler bodyStyler renderer width' b (c # rest) =
     (let author' = (if AuthorLogin c = [] then str ''unknown'' else AuthorLogin c);
          b1 = b @ bullet metaStyler @ str '' '' @ author metaStyler author' @ str '' '' @ [0x2014]
                 @ str '' '' @ dim metaStyler (CreatedAt c) @ str [CHR 0x0A];
          b2 = (if URL c \<noteq> [] then b1 @ str ''  '' @ dim metaStyler (URL c) @ str [CHR 0x0A] else b1);
          b3 = b2 @ str [CHR 0x0A];
          b4 = b3 @ concat (map (\<lambda>line. line @ str [CHR 0x0A])
                   (formatCommentBodyWithRenderer (Body c) (str ''  '') width' bodyStyler renderer));
          b5 = (if rest \<noteq> [] then b4 @ str [CHR 0x0A] else b4)
      in writeComments metaStyler bodyStyler renderer width' b5 rest)"

datatype panic = IndexOutOfRange

text \<open>The width \<open>threadContent\<close> renders at: \<open>if width <= 0 { width = 120 }\<close>.\<close>

definition contentWidth :: "viewport_Model \<Rightarrow> int" where
  "contentWidth vp = (if Width vp \<le> 0 then 120 else Width vp)"

text \<open>
  \<open>threadContent\<close> returns the content and the model with its caches updated. Indexing
  \<open>m.threads\<close> out of range panics.
\<close>

definition threadContent :: "env \<Rightarrow> tuiModel \<Rightarrow> panic + gostring \<times> tuiModel" where
  "threadContent e m =
     (if length (threads m) = 0 then Inr (str ''no review threads found'', m)
      else if index m < 0 \<or> index m \<ge> int (length (threads m)) then Inl IndexOutOfRange
      else
        (let thread = threads m ! nat (index m);
             w = contentWidth (viewport m);
             cached = cachedContent m (ID thread) w
         in if cached \<noteq> [] then Inr (cached, m)
            else
              (let metaStyler = newStyler e;
                   bodyStyler = newStyler e
               in case rendererForWidth e m w of (renderer, m1) \<Rightarrow>
                    (let c = writeComments metaStyler bodyStyler renderer w [] (Comments thread);
                         m2 = m1\<lparr>renderCalls := renderCalls m1 + length (Comments thread)\<rparr>
                     in Inr (c, storeContent m2 (ID thread) w c)))))"

text \<open>The statement pair \<open>m.viewport.SetContent(m.threadContent()); m.viewport.GotoTop()\<close>.\<close>

definition showThread :: "env \<Rightarrow> tuiModel \<Rightarrow> panic + tuiModel" where
  "showThread e m =
     (case threadContent e m of
        Inl p \<Rightarrow> Inl p
      | Inr (c, m1) \<Rightarrow> Inr (m1\<lparr>viewport := GotoTop (SetContent (viewport m1) c)\<rparr>))"

definition nextThread :: "env \<Rightarrow> tuiModel \<Rightarrow> panic + tuiModel" where
  "nextThread e m =
     (if length (threads m) = 0 then Inr m
      else if index m < int (length (threads m)) - 1 then showThread e (m\<lparr>index := index m + 1\<rparr>)
      else Inr m)"

definition prevThread :: "env \<Rightarrow> tuiModel \<Rightarrow> panic + tuiModel" where
  "prevThread e m =
     (if length (threads m) = 0 then Inr m
      else if index m > 0 then showThread e (m\<lparr>index := index m - 1\<rparr>)
      else Inr m)"

definition firstThread :: "env \<Rightarrow> tuiModel \<Rightarrow> panic + tuiModel" where
  "firstThread e m =
     (if length (threads m) = 0 then Inr m
      else if index m \<noteq> 0 then showThread e (m\<lparr>index := 0\<rparr>)
      else Inr m)"

definition lastThread :: "env \<Rightarrow> tuiModel \<Rightarrow> panic + tuiModel" where
  "lastThread e m =
     (if length (threads m) = 0 then Inr m
      else (let last' = int (length (threads m)) - 1 in
            if index m \<noteq> last' then showThread e (m\<lparr>index := last'\<rparr>)
            else Inr m))"

definition nextStatus :: "gostring \<Rightarrow> gostring" where
  "nextStatus s =
     (if s = str ''all'' then str ''unresolved''
      else if s = str ''unresolved'' then str ''resolved''
      else if s = str ''resolved'' then str ''resolved-no-reply''
      else if s = str ''resolved-no-reply'' then str ''all''
      else str ''all'')"

definition cycleFilter :: "env \<Rightarrow> tuiModel \<Rightarrow> panic + tuiModel" where
  "cycleFilter e m =
     (let next = nextStatus (status m);
          m1 = m\<lparr>status := next\<rparr>;
          m2 = m1\<lparr>threads := filterThreads (allThreads m1) (status m1)\<rparr>
      in if length (threads m2) = 0 then showThread e (m2\<lparr>index := 0\<rparr>)
         else
           (let m3 = (if index m2 \<ge> int (length (threads m2))
                      then m2\<lparr>index := int (length (threads m2)) - 1\<rparr> else m2)
            in showThread e m3))"

section \<open>Notions used to state the properties of the reflow engine\<close>

text \<open>A line is within the width, or it is one of the words \<open>W\<close>, longer than the width.\<close>

definition fits :: "int \<Rightarrow> gostring set \<Rightarrow> gostring \<Rightarrow> bool" where
  "fits wd W l \<longleftrightarrow> len l \<le> wd \<or> (l \<in> W \<and> len l > wd)"

text \<open>What \<open>flushParagraph\<close> appends to \<open>out\<close>.\<close>

definition flushed :: "gostring \<Rightarrow> int \<Rightarrow> gostring list \<Rightarrow> gostring list" where
  "flushed indent maxWidth paragraph =
     (if paragraph = [] then []
      else map (\<lambda>wrapped. indent @ wrapped)
             (wrapText (Join paragraph (str '' '')) (maxWidth - len indent)))"

text \<open>The state of the loop of \<open>wrapPlainText\<close> after the lines \<open>ls\<close>.\<close>

definition runLines ::
  "gostring \<Rightarrow> int \<Rightarrow> gostring list \<Rightarrow> gostring list \<times> gostring list \<times> bool \<Rightarrow>
   gostring list \<times> gostring list \<times> bool" where
  "runLines indent maxWidth ls st = foldl (\<lambda>st line. lineStep indent maxWidth line st) st ls"

text \<open>The words of the output lines, the indent taken off each line.\<close>

definition wordsOf :: "gostring \<Rightarrow> gostring list \<Rightarrow> gostring list" where
  "wordsOf indent out = concat (map (\<lambda>l. Fields (drop (length indent) l)) out)"

text \<open>
  An output line is within \<open>maxWidth\<close>, or it is the indent and one word of \<open>W\<close>
  that is longer than the budget \<open>maxWidth - len indent\<close>.
\<close>

definition lineOk :: "gostring \<Rightarrow> int \<Rightarrow> gostring set \<Rightarrow> gostring \<Rightarrow> bool" where
  "lineOk indent maxWidth W l \<longleftrightarrow>
     len l \<le> maxWidth \<or> (\<exists>w \<in> W. len w > maxWidth - len indent \<and> l = indent @ w)"

section \<open>Predicates on browser states\<close>

text \<open>
  \<open>positioned\<close>: the index points at a visible thread, the invariant of the browser
  when threads are visible. \<open>currentThread\<close> is \<open>m.threads[m.index]\<close>.
\<close>

definition positioned :: "tuiModel \<Rightarrow> bool" where
  "positioned m \<longleftrightarrow> 0 \<le> index m \<and> index m < int (length (threads m))"

definition currentThread :: "tuiModel \<Rightarrow> reviewThread" where
  "currentThread m = threads m ! nat (index m)"

text \<open>
  What \<open>threadContent\<close> writes to its builder when it finds nothing in the cache: the
  comments of the current thread, formatted at the width of the viewport with the
  renderer \<open>rendererForWidth\<close> gives for that width.
\<close>

definition renderThread :: "env \<Rightarrow> tuiModel \<Rightarrow> gostring" where
  "renderThread e m =
     writeComments (newStyler e) (newStyler e)
       (fst (rendererForWidth e m (contentWidth (viewport m)))) (contentWidth (viewport m)) []
       (Comments (currentThread m))"

text \<open>Two states that differ in the caches and the call counter at most.\<close>

definition sameBrowser :: "tuiModel \<Rightarrow> tuiModel \<Rightarrow> bool" where
  "sameBrowser m m' \<longleftrightarrow>
     allThreads m' = allThreads m \<and> threads m' = threads m \<and> index m' = index m \<and>
     width m' = width m \<and> height m' = height m \<and> ready m' = ready m \<and>
     viewport m' = viewport m \<and> owner m' = owner m \<and> name m' = name m \<and>
     pr m' = pr m \<and> status m' = status m"

text \<open>The assignment \<open>m.viewport.Width = msg.Width\<close> of \<open>Update\<close>.\<close>

definition resized :: "tuiModel \<Rightarrow> int \<Rightarrow> tuiModel" where
  "resized m w = m\<lparr>viewport := (viewport m)\<lparr>Width := w\<rparr>\<rparr>"

section \<open>Concrete inputs\<close>

definition thr :: "gostring \<Rightarrow> bool \<Rightarrow> reviewComment list \<Rightarrow> reviewThread" where
  "thr i r cs = \<lparr>ID = i, IsResolved = r, IsOutdated = False, Path = [], Line = None,
     OriginalLine = None, StartLine = None, OriginalStart = None, Comments = cs\<rparr>"

definition comment1 :: reviewComment where
  "comment1 = \<lparr>commentID = str ''c1'', Body = str ''hello world'', CreatedAt = str ''2024-01-01'',
     URL = [], AuthorLogin = str ''alice''\<rparr>"

text \<open>No colour, no terminal, and a markdown renderer that cannot be built.\<close>

definition env0 :: env where
  "env0 = \<lparr>NO_COLOR = [], stdoutIsTerminal = False,
     NewTermRenderer = (\<lambda>n. Inl (Error (str ''no renderer'')))\<rparr>"

definition browser2 :: tuiModel where
  "browser2 = newTUIModel (str ''o'') (str ''n'') 1 (str ''all'')
     [thr (str ''T1'') True [comment1], thr (str ''T2'') False []]"

definition browser0 :: tuiModel where
  "browser0 = newTUIModel (str ''o'') (str ''n'') 1 (str ''all'') []"

text \<open>A browser on one thread that has no ID.\<close>

definition browserAnon :: tuiModel where
  "browserAnon = newTUIModel (str ''o'') (str ''n'') 1 (str ''all'') [thr [] True [comment1]]"

definition body1 :: gostring where
  "body1 = str ''see https://example.com/a/very/long/path/that/does/not/fit ok''"

text \<open>A body with a fenced block between two lines of text.\<close>

definition body2 :: gostring where
  "body2 = str ''a'' @ [0x0A] @ str ''```'' @ [0x0A] @ str ''code  here'' @ [0x0A] @ str ''```'' @
     [0x0A] @ str ''b''"

text \<open>A server that answers every request with \<open>hasNextPage = true\<close> and an empty cursor.\<close>

definition stuckServer :: "unit client" where
  "stuckServer s after = (Inr \<lparr>HasNextPage = True, EndCursor = Some [], Nodes = []\<rparr>, s)"

section \<open>Properties of the filter engine\<close>

lemma str_eq_iff [simp]: "str a = str b \<longleftrightarrow> a = b"
  unfolding str_def by (rule inj_map_eq_map) (simp add: inj_on_def)

lemma filterLoop_resolved:
  "filterLoop (str ''resolved'') acc ts = acc @ filter IsResolved ts"
  by (induction ts arbitrary: acc) simp_all

lemma filterLoop_unresolved:
  "filterLoop (str ''unresolved'') acc ts = acc @ filter (\<lambda>t. \<not> IsResolved t) ts"
  by (induction ts arbitrary: acc) simp_all

lemma filterLoop_no_reply:
  "filterLoop (str ''resolved-no-reply'') acc ts =
     acc @ filter (\<lambda>t. IsResolved t \<and> length (Comments t) \<le> 1) ts"
  by (induction ts arbitrary: acc) simp_all

lemma filterLoop_unknown:
  "mode \<noteq> str ''resolved'' \<Longrightarrow> mode \<noteq> str ''unresolved'' \<Longrightarrow>
   mode \<noteq> str ''resolved-no-reply'' \<Longrightarrow> filterLoop mode acc ts = acc"
  by (induction ts arbitrary: acc) simp_all

text \<open>
  C3. \<open>filterThreads\<close> with \<open>resolved\<close> returns exactly the resolved threads, with
  \<open>resolved-no-reply\<close> exactly the resolved threads that have at most one comment, with
  \<open>unresolved\<close> exactly the unresolved ones, each in the order of the input; with \<open>all\<close>
  it returns the input, so length and order are kept.
\<close>

theorem filterThreads_correct:
  "filterThreads ts (str ''resolved'') = filter IsResolved ts \<and>
   filterThreads ts (str ''resolved-no-reply'') =
     filter (\<lambda>t. IsResolved t \<and> length (Comments t) \<le> 1) ts \<and>
   filterThreads ts (str ''unresolved'') = filter (\<lambda>t. \<not> IsResolved t) ts \<and>
   filterThreads ts (str ''all'') = ts \<and>
   length (filterThreads ts (str ''all'')) = length ts"
  by (simp add: filterThreads_def filterLoop_resolved filterLoop_unresolved filterLoop_no_reply)

text \<open>
  C10. A status string other than the four recognised ones matches no thread:
  \<open>filterThreads\<close> returns the empty list, not its input.
\<close>

theorem filterThreads_unknown_status:
  "mode \<notin> {str ''all'', str ''unresolved'', str ''resolved'', str ''resolved-no-reply''} \<Longrightarrow>
   filterThreads ts mode = []"
  by (simp add: filterThreads_def filterLoop_unknown)

theorem filterThreads_unknown_status_witness:
  "str ''bogus'' \<notin> {str ''all'', str ''unresolved'', str ''resolved'', str ''resolved-no-reply''} \<and>
   filterThreads [thr (str ''T1'') True []] (str ''bogus'') = []"
  using filterThreads_unknown_status [of "str ''bogus''" "[thr (str ''T1'') True []]"] by simp

section \<open>Termination of the pagination loop\<close>

lemma fetchLoop_last:
  "Do s after = (Inr resp, s') \<Longrightarrow> lastPage resp \<Longrightarrow>
   fetchLoop Do s after all = Some (Inr (all @ Nodes resp))"
  by (subst fetchLoop.simps) (auto simp: lastPage_def Let_def split: option.splits)

lemma fetchLoop_next:
  "Do s after = (Inr resp, s') \<Longrightarrow> \<not> lastPage resp \<Longrightarrow>
   fetchLoop Do s after all = fetchLoop Do s' (EndCursor resp) (all @ Nodes resp)"
  by (subst fetchLoop.simps) (auto simp: lastPage_def Let_def split: option.splits)

lemma fetchLoop_stops:
  "stopsWithin n Do s after \<Longrightarrow> \<exists>ts. fetchLoop Do s after all = Some (Inr ts)"
proof (induction n arbitrary: s after all)
  case 0
  then show ?case by simp
next
  case (Suc n)
  obtain r s' where d: "Do s after = (r, s')" by (cases "Do s after")
  with Suc.prems obtain resp where r: "r = Inr resp" by (cases r) auto
  show ?case
  proof (cases "lastPage resp")
    case True
    with d r show ?thesis by (simp add: fetchLoop_last)
  next
    case False
    with Suc.prems d r have "stopsWithin n Do s' (EndCursor resp)" by simp
    from Suc.IH [OF this] False d r show ?thesis by (simp add: fetchLoop_next)
  qed
qed

text \<open>
  C2. Whatever pages the server sends, once a fetched page reports \<open>hasNextPage = false\<close>,
  or \<open>hasNextPage = true\<close> with a nil or empty cursor, \<open>fetchAllThreads\<close> returns the
  threads read. The witness is the server that always answers \<open>hasNextPage = true\<close> with
  an empty cursor: the loop returns after its first page.
\<close>

theorem fetchAllThreads_terminates:
  "stopsWithin n Do s None \<Longrightarrow> \<exists>ts. fetchAllThreads Do s = Some (Inr ts)"
  unfolding fetchAllThreads_def by (rule fetchLoop_stops)

theorem fetchAllThreads_terminates_witness:
  "stopsWithin 1 stuckServer () None \<and> (\<exists>ts. fetchAllThreads stuckServer () = Some (Inr ts))"
proof -
  have h: "stopsWithin (Suc 0) stuckServer () None"
    by (simp add: stuckServer_def lastPage_def)
  from h fetchAllThreads_terminates [OF h] show ?thesis by simp
qed

section \<open>Navigation, filter cycle and render cache\<close>

text \<open>Unfolding sets for evaluating the model on concrete inputs.\<close>

lemmas browser_defs = newTUIModel_def thr_def comment1_def env0_def
lemmas render_defs = threadContent_def contentWidth_def cachedContent_def storeContent_def
  rendererForWidth_def newStyler_def bullet_def author_def dim_def wrap_def
  formatCommentBodyWithRenderer_def
lemmas reflow_defs = wrapPlainText_def bodyLines_def Split_def splitFrom.simps TrimRight_def HasPrefix_def
  TrimSpace_def maxWidthFor_def len_def utf8len_def flushParagraph_def lineStep_def wrapText_def
  Fields_def
  isSpace_def isFenceLine_def str_def

lemma positioned_nonempty: "positioned m \<Longrightarrow> threads m \<noteq> []"
  by (auto simp: positioned_def)

lemma sameBrowser_refl [simp]: "sameBrowser m m"
  by (simp add: sameBrowser_def)

lemma rendererForWidth_same:
  "rendererForWidth e m w = (r, m1) \<Longrightarrow> sameBrowser m m1"
  unfolding rendererForWidth_def Let_def
  by (cases "rendererCache m (if w < 20 then 20 else w)";
      cases "NewTermRenderer e ((if w < 20 then 20 else w) - 2)")
     (auto simp: sameBrowser_def)

lemma storeContent_same: "sameBrowser m (storeContent m i w c)"
  by (simp add: storeContent_def sameBrowser_def Let_def)

lemma threadContent_empty:
  "threads m = [] \<Longrightarrow> threadContent e m = Inr (str ''no review threads found'', m)"
  by (simp add: threadContent_def)

text \<open>The two ways through threadContent.\<close>

lemma threadContent_hit:
  assumes "positioned m" and "cachedContent m (ID (threads m ! nat (index m))) (contentWidth (viewport m)) \<noteq> []"
  shows "threadContent e m =
    Inr (cachedContent m (ID (threads m ! nat (index m))) (contentWidth (viewport m)), m)"
  using assms positioned_nonempty [OF assms(1)]
  by (simp add: threadContent_def positioned_def Let_def)

lemma threadContent_miss:
  assumes "positioned m" and "cachedContent m (ID (threads m ! nat (index m))) (contentWidth (viewport m)) = []"
    and "rendererForWidth e m (contentWidth (viewport m)) = (r, m1)"
  shows "threadContent e m =
    Inr (writeComments (newStyler e) (newStyler e) r (contentWidth (viewport m)) []
           (Comments (threads m ! nat (index m))),
         storeContent (m1\<lparr>renderCalls := renderCalls m1 + length (Comments (threads m ! nat (index m)))\<rparr>)
           (ID (threads m ! nat (index m))) (contentWidth (viewport m))
           (writeComments (newStyler e) (newStyler e) r (contentWidth (viewport m)) []
             (Comments (threads m ! nat (index m)))))"
  using assms positioned_nonempty [OF assms(1)]
  by (simp add: threadContent_def positioned_def Let_def)

lemma threadContent_positioned:
  assumes "positioned m"
  shows "\<exists>c m'. threadContent e m = Inr (c, m') \<and> sameBrowser m m'"
proof (cases "cachedContent m (ID (threads m ! nat (index m))) (contentWidth (viewport m)) = []")
  case False
  from threadContent_hit [OF assms False, of e] show ?thesis by simp
next
  case True
  obtain r m1 where rf: "rendererForWidth e m (contentWidth (viewport m)) = (r, m1)"
    by (cases "rendererForWidth e m (contentWidth (viewport m))")
  from rendererForWidth_same [OF rf] have s1: "sameBrowser m m1" .
  have "sameBrowser m (storeContent (m1\<lparr>renderCalls := k\<rparr>) i w c)" for k i w c
    using s1 by (simp add: storeContent_def sameBrowser_def Let_def)
  with threadContent_miss [OF assms True rf] show ?thesis by simp
qed

lemma showThread_empty:
  "threads m = [] \<Longrightarrow>
   showThread e m = Inr (m\<lparr>viewport := GotoTop (SetContent (viewport m) (str ''no review threads found''))\<rparr>)"
  by (simp add: showThread_def threadContent_empty)

lemma showThread_positioned:
  assumes "positioned m"
  shows "\<exists>m'. showThread e m = Inr m' \<and> threads m' = threads m \<and> allThreads m' = allThreads m \<and>
           index m' = index m \<and> status m' = status m \<and> YOffset (viewport m') = 0 \<and>
           Width (viewport m') = Width (viewport m)"
proof -
  from threadContent_positioned [OF assms, of e] obtain c m1
    where tc: "threadContent e m = Inr (c, m1)" and sb: "sameBrowser m m1" by blast
  from tc sb show ?thesis
    by (simp add: showThread_def sameBrowser_def GotoTop_def SetContent_def)
qed

lemma nextThread_step:
  assumes "positioned m"
  shows "\<exists>m'. nextThread e m = Inr m' \<and> threads m' = threads m \<and>
           index m' = (if index m < int (length (threads m)) - 1 then index m + 1 else index m)"
proof (cases "index m < int (length (threads m)) - 1")
  case True
  with assms have "positioned (m\<lparr>index := index m + 1\<rparr>)" by (simp add: positioned_def)
  from showThread_positioned [OF this, of e] True assms show ?thesis
    by (auto simp: nextThread_def positioned_def)
next
  case False
  then show ?thesis by (simp add: nextThread_def)
qed

lemma prevThread_step:
  assumes "positioned m"
  shows "\<exists>m'. prevThread e m = Inr m' \<and> threads m' = threads m \<and>
           index m' = (if index m > 0 then index m - 1 else index m)"
proof (cases "index m > 0")
  case True
  with assms have "positioned (m\<lparr>index := index m - 1\<rparr>)" by (simp add: positioned_def)
  from showThread_positioned [OF this, of e] True assms show ?thesis
    by (auto simp: prevThread_def positioned_def)
next
  case False
  then show ?thesis by (simp add: prevThread_def)
qed

lemma firstThread_step:
  assumes "positioned m"
  shows "\<exists>m'. firstThread e m = Inr m' \<and> threads m' = threads m \<and> index m' = 0"
proof (cases "index m = 0")
  case False
  from assms have "positioned (m\<lparr>index := 0\<rparr>)"
    by (cases "threads m") (auto simp: positioned_def)
  from showThread_positioned [OF this, of e] False positioned_nonempty [OF assms] show ?thesis
    by (auto simp: firstThread_def)
next
  case True
  then show ?thesis by (simp add: firstThread_def)
qed

lemma lastThread_step:
  assumes "positioned m"
  shows "\<exists>m'. lastThread e m = Inr m' \<and> threads m' = threads m \<and>
           index m' = int (length (threads m)) - 1"
proof (cases "index m = int (length (threads m)) - 1")
  case False
  from assms have "positioned (m\<lparr>index := int (length (threads m)) - 1\<rparr>)"
    by (cases "threads m") (auto simp: positioned_def)
  from showThread_positioned [OF this, of e] False positioned_nonempty [OF assms] show ?thesis
    by (auto simp: lastThread_def Let_def)
next
  case True
  then show ?thesis by (simp add: lastThread_def Let_def)
qed

lemma navigation_empty:
  "threads m = [] \<Longrightarrow>
   nextThread e m = Inr m \<and> prevThread e m = Inr m \<and> firstThread e m = Inr m \<and> lastThread e m = Inr m"
  by (simp add: nextThread_def prevThread_def firstThread_def lastThread_def)

lemma nextThread_positioned:
  assumes "positioned m"
  shows "\<exists>m'. nextThread e m = Inr m' \<and> threads m' = threads m \<and> positioned m'"
proof -
  from nextThread_step [OF assms, of e] obtain m' where
    n: "nextThread e m = Inr m'" and t: "threads m' = threads m" and
    i: "index m' = (if index m < int (length (threads m)) - 1 then index m + 1 else index m)"
    by blast
  from assms t i have "positioned m'" by (simp add: positioned_def split: if_splits)
  with n t show ?thesis by blast
qed

lemma prevThread_positioned:
  assumes "positioned m"
  shows "\<exists>m'. prevThread e m = Inr m' \<and> threads m' = threads m \<and> positioned m'"
proof -
  from prevThread_step [OF assms, of e] obtain m' where
    n: "prevThread e m = Inr m'" and t: "threads m' = threads m" and
    i: "index m' = (if index m > 0 then index m - 1 else index m)"
    by blast
  from assms t i have "positioned m'" by (simp add: positioned_def split: if_splits)
  with n t show ?thesis by blast
qed

lemma firstThread_idem:
  assumes "positioned m"
  shows "\<exists>m'. firstThread e m = Inr m' \<and> index m' = 0 \<and> firstThread e m' = Inr m'"
proof -
  from firstThread_step [OF assms, of e] obtain m' where
    n: "firstThread e m = Inr m'" and i: "index m' = 0" by blast
  from i have "firstThread e m' = Inr m'" by (simp add: firstThread_def)
  with n i show ?thesis by blast
qed

lemma lastThread_idem:
  assumes "positioned m"
  shows "\<exists>m'. lastThread e m = Inr m' \<and> index m' = int (length (threads m')) - 1 \<and>
           lastThread e m' = Inr m'"
proof -
  from lastThread_step [OF assms, of e] obtain m' where
    n: "lastThread e m = Inr m'" and t: "threads m' = threads m" and
    i: "index m' = int (length (threads m)) - 1" by blast
  from i t have "lastThread e m' = Inr m'" by (simp add: lastThread_def Let_def)
  with n i t show ?thesis by simp
qed

text \<open>
  C5. From a position inside the visible list, \<open>nextThread\<close> and \<open>prevThread\<close> return a
  state with the same list whose index is again inside it; at the last position
  \<open>nextThread\<close> and \<open>lastThread\<close> return the state unchanged, and so do \<open>prevThread\<close>
  and \<open>firstThread\<close> at position 0; \<open>firstThread\<close> and \<open>lastThread\<close> reach their
  boundary and, applied there again, change nothing. With no visible thread all four
  return the state unchanged.
\<close>

theorem navigation_bounds:
  "(positioned m \<longrightarrow>
      (\<exists>m'. nextThread e m = Inr m' \<and> threads m' = threads m \<and> positioned m') \<and>
      (\<exists>m'. prevThread e m = Inr m' \<and> threads m' = threads m \<and> positioned m') \<and>
      (index m = int (length (threads m)) - 1 \<longrightarrow>
         nextThread e m = Inr m \<and> lastThread e m = Inr m) \<and>
      (index m = 0 \<longrightarrow> prevThread e m = Inr m \<and> firstThread e m = Inr m) \<and>
      (\<exists>m'. firstThread e m = Inr m' \<and> index m' = 0 \<and> firstThread e m' = Inr m') \<and>
      (\<exists>m'. lastThread e m = Inr m' \<and> index m' = int (length (threads m')) - 1 \<and>
             lastThread e m' = Inr m')) \<and>
   (threads m = [] \<longrightarrow>
      nextThread e m = Inr m \<and> prevThread e m = Inr m \<and>
      firstThread e m = Inr m \<and> lastThread e m = Inr m)"
proof (intro conjI impI)
  assume p: "positioned m"
  show "\<exists>m'. nextThread e m = Inr m' \<and> threads m' = threads m \<and> positioned m'"
    by (rule nextThread_positioned [OF p])
  show "\<exists>m'. prevThread e m = Inr m' \<and> threads m' = threads m \<and> positioned m'"
    by (rule prevThread_positioned [OF p])
  show "\<exists>m'. firstThread e m = Inr m' \<and> index m' = 0 \<and> firstThread e m' = Inr m'"
    by (rule firstThread_idem [OF p])
  show "\<exists>m'. lastThread e m = Inr m' \<and> index m' = int (length (threads m')) - 1 \<and>
             lastThread e m' = Inr m'"
    by (rule lastThread_idem [OF p])
next
  assume "positioned m" "index m = int (length (threads m)) - 1"
  then show "nextThread e m = Inr m" "lastThread e m = Inr m"
    by (simp_all add: nextThread_def lastThread_def Let_def)
next
  assume "positioned m" "index m = 0"
  then show "prevThread e m = Inr m" "firstThread e m = Inr m"
    by (simp_all add: prevThread_def firstThread_def)
next
  assume "threads m = []"
  then show "nextThread e m = Inr m" "prevThread e m = Inr m"
    "firstThread e m = Inr m" "lastThread e m = Inr m"
    by (simp_all add: navigation_empty)
qed

theorem navigation_bounds_witness:
  "positioned browser2 \<and>
   (\<exists>m'. nextThread env0 browser2 = Inr m' \<and> threads m' = threads browser2 \<and> positioned m') \<and>
   (\<exists>m'. prevThread env0 browser2 = Inr m' \<and> threads m' = threads browser2 \<and> positioned m') \<and>
   threads browser0 = [] \<and> nextThread env0 browser0 = Inr browser0 \<and>
   prevThread env0 browser0 = Inr browser0 \<and> firstThread env0 browser0 = Inr browser0 \<and>
   lastThread env0 browser0 = Inr browser0"
proof -
  have p: "positioned browser2"
    by (simp add: positioned_def browser2_def browser_defs)
  have z: "threads browser0 = []"
    by (simp add: browser0_def browser_defs)
  from p z navigation_bounds [of browser2 env0] navigation_bounds [of browser0 env0]
  show ?thesis by blast
qed

lemma showThread_content_empty:
  assumes "threads m = []"
  shows "\<exists>m'. showThread e m = Inr m' \<and> threads m' = [] \<and> allThreads m' = allThreads m \<and>
           index m' = index m \<and> status m' = status m \<and> YOffset (viewport m') = 0 \<and>
           content (viewport m') = str ''no review threads found''"
  using assms by (simp add: showThread_empty GotoTop_def SetContent_def)

lemma cycleFilter_step:
  assumes "0 \<le> index m"
  shows "\<exists>m'. cycleFilter e m = Inr m' \<and> status m' = nextStatus (status m) \<and>
           allThreads m' = allThreads m \<and>
           threads m' = filterThreads (allThreads m) (nextStatus (status m)) \<and>
           index m' = (if threads m' = [] then 0
                       else if index m \<ge> int (length (threads m')) then int (length (threads m')) - 1
                       else index m) \<and>
           (threads m' = [] \<longrightarrow> content (viewport m') = str ''no review threads found'') \<and>
           YOffset (viewport m') = 0"
proof -
  let ?ts = "filterThreads (allThreads m) (nextStatus (status m))"
  let ?m2 = "m\<lparr>status := nextStatus (status m), threads := ?ts\<rparr>"
  show ?thesis
  proof (cases "?ts = []")
    case True
    then have "threads (?m2\<lparr>index := 0\<rparr>) = []" by simp
    from showThread_content_empty [OF this, of e] True show ?thesis
      by (auto simp: cycleFilter_def Let_def)
  next
    case False
    let ?m3 = "if index ?m2 \<ge> int (length (threads ?m2))
               then ?m2\<lparr>index := int (length (threads ?m2)) - 1\<rparr> else ?m2"
    from False assms have "positioned ?m3"
      by (cases ?ts) (auto simp: positioned_def)
    from showThread_positioned [OF this, of e] obtain m' where
      sh: "showThread e ?m3 = Inr m'" and t: "threads m' = threads ?m3" and
      a: "allThreads m' = allThreads ?m3" and i: "index m' = index ?m3" and
      st: "status m' = status ?m3" and y: "YOffset (viewport m') = 0" by blast
    from False have cf: "cycleFilter e m = showThread e ?m3"
      by (simp add: cycleFilter_def Let_def)
    from t have t': "threads m' = ?ts" by simp
    from a have a': "allThreads m' = allThreads m" by simp
    from st have st': "status m' = nextStatus (status m)" by simp
    from i have i': "index m' = (if index m \<ge> int (length ?ts) then int (length ?ts) - 1 else index m)"
      by simp
    from cf sh t' a' st' i' y False show ?thesis by simp
  qed
qed

lemma nextStatus_four:
  "s \<in> {str ''all'', str ''unresolved'', str ''resolved'', str ''resolved-no-reply''} \<Longrightarrow>
   nextStatus (nextStatus (nextStatus (nextStatus s))) = s"
  by (auto simp: nextStatus_def)

lemma cycleFilter_status:
  assumes "0 \<le> index m"
  shows "\<exists>m'. cycleFilter e m = Inr m' \<and> status m' = nextStatus (status m) \<and> 0 \<le> index m'"
proof -
  from cycleFilter_step [OF assms, of e] obtain m' where
    c: "cycleFilter e m = Inr m'" and s: "status m' = nextStatus (status m)" and
    i: "index m' = (if threads m' = [] then 0
                       else if index m \<ge> int (length (threads m')) then int (length (threads m')) - 1
                       else index m)" by blast
  from i assms have "0 \<le> index m'" by (cases "threads m'") (auto split: if_splits)
  with c s show ?thesis by blast
qed

text \<open>
  C4. \<open>cycleFilter\<close> recomputes the visible list for the next mode. An old index below
  the new length is kept; an old index at or beyond the length of a non-empty new list
  becomes the last position; with an empty new list the index is 0 and the viewport
  shows the no-threads message. The index of a browser state is never negative.
\<close>

theorem cycleFilter_index:
  assumes "0 \<le> index m"
  shows "\<exists>m'. cycleFilter e m = Inr m' \<and> status m' = nextStatus (status m) \<and>
           threads m' = filterThreads (allThreads m) (status m') \<and>
           (index m < int (length (threads m')) \<longrightarrow> index m' = index m) \<and>
           (threads m' \<noteq> [] \<and> index m \<ge> int (length (threads m')) \<longrightarrow>
              index m' = int (length (threads m')) - 1) \<and>
           (length (threads m') = 0 \<longrightarrow>
              index m' = 0 \<and> content (viewport m') = str ''no review threads found'')"
proof -
  from cycleFilter_step [OF assms, of e] obtain m' where
    c: "cycleFilter e m = Inr m'" and s: "status m' = nextStatus (status m)" and
    t: "threads m' = filterThreads (allThreads m) (nextStatus (status m))" and
    i: "index m' = (if threads m' = [] then 0
                       else if index m \<ge> int (length (threads m')) then int (length (threads m')) - 1
                       else index m)" and
    n: "threads m' = [] \<longrightarrow> content (viewport m') = str ''no review threads found''" by blast
  from assms i have "index m < int (length (threads m')) \<longrightarrow> index m' = index m"
    by (cases "threads m'") auto
  moreover from i have "threads m' \<noteq> [] \<and> index m \<ge> int (length (threads m')) \<longrightarrow>
              index m' = int (length (threads m')) - 1" by simp
  moreover from i n have "length (threads m') = 0 \<longrightarrow>
              index m' = 0 \<and> content (viewport m') = str ''no review threads found''" by simp
  ultimately show ?thesis using c s t by simp
qed

theorem cycleFilter_index_witness:
  "0 \<le> index browser2 \<and>
   (\<exists>m'. cycleFilter env0 browser2 = Inr m' \<and> status m' = str ''unresolved'' \<and>
           threads m' = [thr (str ''T2'') False []] \<and> index m' = 0)"
proof -
  have i: "0 \<le> index browser2" by (simp add: browser2_def browser_defs)
  have a: "allThreads browser2 = [thr (str ''T1'') True [comment1], thr (str ''T2'') False []]"
    and s: "status browser2 = str ''all''" and x: "index browser2 = 0"
    by (simp_all add: browser2_def newTUIModel_def)
  from cycleFilter_index [OF i, of env0] obtain m' where
    c: "cycleFilter env0 browser2 = Inr m'" and st: "status m' = nextStatus (status browser2)" and
    t: "threads m' = filterThreads (allThreads browser2) (status m')" and
    k: "index browser2 < int (length (threads m')) \<longrightarrow> index m' = index browser2" by blast
  from st s have st': "status m' = str ''unresolved''" by (simp add: nextStatus_def)
  from t st' a have t': "threads m' = [thr (str ''T2'') False []]"
    by (simp add: filterThreads_def thr_def)
  from k t' x have "index m' = 0" by simp
  with i c st' t' show ?thesis by blast
qed

text \<open>
  C8. From each of the four modes, four applications of \<open>cycleFilter\<close> return to the
  mode they started from, and one application follows the order all, unresolved,
  resolved, resolved-no-reply, all.
\<close>

theorem cycleFilter_four_times:
  assumes "0 \<le> index m"
    and "status m \<in> {str ''all'', str ''unresolved'', str ''resolved'', str ''resolved-no-reply''}"
  shows "\<exists>m1 m2 m3 m4. cycleFilter e m = Inr m1 \<and> cycleFilter e m1 = Inr m2 \<and>
           cycleFilter e m2 = Inr m3 \<and> cycleFilter e m3 = Inr m4 \<and> status m4 = status m \<and>
           (status m = str ''all'' \<longrightarrow> status m1 = str ''unresolved'') \<and>
           (status m = str ''unresolved'' \<longrightarrow> status m1 = str ''resolved'') \<and>
           (status m = str ''resolved'' \<longrightarrow> status m1 = str ''resolved-no-reply'') \<and>
           (status m = str ''resolved-no-reply'' \<longrightarrow> status m1 = str ''all'')"
proof -
  from cycleFilter_status [OF assms(1), of e] obtain m1 where
    c1: "cycleFilter e m = Inr m1" and s1: "status m1 = nextStatus (status m)" and i1: "0 \<le> index m1"
    by blast
  from cycleFilter_status [OF i1, of e] obtain m2 where
    c2: "cycleFilter e m1 = Inr m2" and s2: "status m2 = nextStatus (status m1)" and i2: "0 \<le> index m2"
    by blast
  from cycleFilter_status [OF i2, of e] obtain m3 where
    c3: "cycleFilter e m2 = Inr m3" and s3: "status m3 = nextStatus (status m2)" and i3: "0 \<le> index m3"
    by blast
  from cycleFilter_status [OF i3, of e] obtain m4 where
    c4: "cycleFilter e m3 = Inr m4" and s4: "status m4 = nextStatus (status m3)"
    by blast
  from s1 s2 s3 s4 nextStatus_four [OF assms(2)] have ret: "status m4 = status m" by simp
  from s1 have ord: "(status m = str ''all'' \<longrightarrow> status m1 = str ''unresolved'') \<and>
           (status m = str ''unresolved'' \<longrightarrow> status m1 = str ''resolved'') \<and>
           (status m = str ''resolved'' \<longrightarrow> status m1 = str ''resolved-no-reply'') \<and>
           (status m = str ''resolved-no-reply'' \<longrightarrow> status m1 = str ''all'')"
    by (simp add: nextStatus_def)
  from c1 c2 c3 c4 ret ord show ?thesis by blast
qed

theorem cycleFilter_four_times_witness:
  "0 \<le> index browser2 \<and>
   status browser2 \<in> {str ''all'', str ''unresolved'', str ''resolved'', str ''resolved-no-reply''} \<and>
   (\<exists>m1 m2 m3 m4. cycleFilter env0 browser2 = Inr m1 \<and> cycleFilter env0 m1 = Inr m2 \<and>
           cycleFilter env0 m2 = Inr m3 \<and> cycleFilter env0 m3 = Inr m4 \<and>
           status m4 = str ''all'' \<and> status m1 = str ''unresolved'')"
proof -
  have i: "0 \<le> index browser2" by (simp add: browser2_def browser_defs)
  have s: "status browser2 = str ''all''" by (simp add: browser2_def newTUIModel_def)
  then have k: "status browser2 \<in> {str ''all'', str ''unresolved'', str ''resolved'', str ''resolved-no-reply''}"
    by simp
  from cycleFilter_four_times [OF i k, of env0] s have
    "\<exists>m1 m2 m3 m4. cycleFilter env0 browser2 = Inr m1 \<and> cycleFilter env0 m1 = Inr m2 \<and>
           cycleFilter env0 m2 = Inr m3 \<and> cycleFilter env0 m3 = Inr m4 \<and>
           status m4 = str ''all'' \<and> status m1 = str ''unresolved''"
    by auto
  with i k show ?thesis by blast
qed

lemma writeComments_prefix:
  "\<exists>suf. writeComments ms bs r w b cs = b @ suf"
proof (induction cs arbitrary: b)
  case Nil
  then show ?case by simp
next
  case (Cons c rest)
  let ?b5 = "(let author' = (if AuthorLogin c = [] then str ''unknown'' else AuthorLogin c);
          b1 = b @ bullet ms @ str '' '' @ author ms author' @ str '' '' @ [0x2014]
                 @ str '' '' @ dim ms (CreatedAt c) @ str [CHR 0x0A];
          b2 = (if URL c \<noteq> [] then b1 @ str ''  '' @ dim ms (URL c) @ str [CHR 0x0A] else b1);
          b3 = b2 @ str [CHR 0x0A];
          b4 = b3 @ concat (map (\<lambda>line. line @ str [CHR 0x0A])
                   (formatCommentBodyWithRenderer (Body c) (str ''  '') w bs r));
          b5 = (if rest \<noteq> [] then b4 @ str [CHR 0x0A] else b4)
      in b5)"
  have eq: "writeComments ms bs r w b (c # rest) = writeComments ms bs r w ?b5 rest"
    by (simp add: Let_def)
  have p: "\<exists>suf. ?b5 = b @ suf" by (simp add: Let_def)
  from Cons.IH [of ?b5] obtain suf where "writeComments ms bs r w ?b5 rest = ?b5 @ suf" by blast
  with eq p show ?case by (metis append.assoc)
qed

lemma writeComments_nonempty:
  "cs \<noteq> [] \<Longrightarrow> writeComments ms bs r w b cs \<noteq> []"
proof (cases cs)
  case Nil
  assume "cs \<noteq> []" with Nil show ?thesis by simp
next
  case (Cons c rest)
  let ?b5 = "(let author' = (if AuthorLogin c = [] then str ''unknown'' else AuthorLogin c);
          b1 = b @ bullet ms @ str '' '' @ author ms author' @ str '' '' @ [0x2014]
                 @ str '' '' @ dim ms (CreatedAt c) @ str [CHR 0x0A];
          b2 = (if URL c \<noteq> [] then b1 @ str ''  '' @ dim ms (URL c) @ str [CHR 0x0A] else b1);
          b3 = b2 @ str [CHR 0x0A];
          b4 = b3 @ concat (map (\<lambda>line. line @ str [CHR 0x0A])
                   (formatCommentBodyWithRenderer (Body c) (str ''  '') w bs r));
          b5 = (if rest \<noteq> [] then b4 @ str [CHR 0x0A] else b4)
      in b5)"
  have eq: "writeComments ms bs r w b (c # rest) = writeComments ms bs r w ?b5 rest"
    by (simp add: Let_def)
  have ne: "?b5 \<noteq> []" by (simp add: Let_def str_def)
  from writeComments_prefix [of ms bs r w ?b5 rest] obtain suf
    where "writeComments ms bs r w ?b5 rest = ?b5 @ suf" by blast
  with eq ne Cons show ?thesis by simp
qed

lemma cachedContent_cong:
  "contentCache m' = contentCache m \<Longrightarrow> cachedContent m' i w = cachedContent m i w"
  by (simp add: cachedContent_def)

lemma cachedContent_store_same:
  "i \<noteq> [] \<Longrightarrow> cachedContent (storeContent m i w c) i w = c"
  by (simp add: cachedContent_def storeContent_def Let_def)

lemma cachedContent_store_other:
  "w' \<noteq> w \<Longrightarrow> cachedContent (storeContent m i w c) i w' = cachedContent m i w'"
  by (simp add: cachedContent_def storeContent_def Let_def split: option.splits)

lemma storeContent_renderCalls: "renderCalls (storeContent m i w c) = renderCalls m"
  by (simp add: storeContent_def Let_def)

lemma rendererForWidth_keeps:
  "rendererForWidth e m w = (r, m1) \<Longrightarrow>
   contentCache m1 = contentCache m \<and> renderCalls m1 = renderCalls m"
  unfolding rendererForWidth_def Let_def
  by (cases "rendererCache m (if w < 20 then 20 else w)";
      cases "NewTermRenderer e ((if w < 20 then 20 else w) - 2)") auto

lemma threadContent_value:
  assumes p: "positioned m" and i: "ID (currentThread m) \<noteq> []"
  shows "\<exists>c m1. threadContent e m = Inr (c, m1) \<and> sameBrowser m m1 \<and>
           c = (if cachedContent m (ID (currentThread m)) (contentWidth (viewport m)) = []
                then renderThread e m
                else cachedContent m (ID (currentThread m)) (contentWidth (viewport m))) \<and>
           cachedContent m1 (ID (currentThread m)) (contentWidth (viewport m)) = c \<and>
           (c = [] \<longrightarrow> Comments (currentThread m) = []) \<and>
           (\<forall>w'. w' \<noteq> contentWidth (viewport m) \<longrightarrow>
              cachedContent m1 (ID (currentThread m)) w' = cachedContent m (ID (currentThread m)) w')"
proof -
  let ?t = "threads m ! nat (index m)"
  let ?w = "contentWidth (viewport m)"
  from i have i': "ID ?t \<noteq> []" by (simp add: currentThread_def)
  show ?thesis
  proof (cases "cachedContent m (ID ?t) ?w = []")
    case False
    from threadContent_hit [OF p False, of e] False show ?thesis
      by (simp add: currentThread_def)
  next
    case True
    obtain r m1 where rf: "rendererForWidth e m ?w = (r, m1)"
      by (cases "rendererForWidth e m ?w")
    let ?c = "writeComments (newStyler e) (newStyler e) r ?w [] (Comments ?t)"
    let ?m1 = "m1\<lparr>renderCalls := renderCalls m1 + length (Comments ?t)\<rparr>"
    let ?m2 = "storeContent ?m1 (ID ?t) ?w ?c"
    from threadContent_miss [OF p True rf] have tc: "threadContent e m = Inr (?c, ?m2)" .
    from rf have rt: "renderThread e m = ?c" by (simp add: renderThread_def currentThread_def)
    from rendererForWidth_same [OF rf] have "sameBrowser m ?m2"
      by (simp add: storeContent_def sameBrowser_def Let_def)
    moreover from i' have "cachedContent ?m2 (ID ?t) ?w = ?c"
      by (rule cachedContent_store_same)
    moreover have "?c = [] \<longrightarrow> Comments ?t = []"
      using writeComments_nonempty [of "Comments ?t" "newStyler e" "newStyler e" r ?w "[]"] by blast
    moreover have "cachedContent ?m2 (ID ?t) w' = cachedContent m (ID ?t) w'" if "w' \<noteq> ?w" for w'
    proof -
      from that have "cachedContent ?m2 (ID ?t) w' = cachedContent ?m1 (ID ?t) w'"
        by (rule cachedContent_store_other)
      also from rendererForWidth_keeps [OF rf] have "\<dots> = cachedContent m (ID ?t) w'"
        by (simp add: cachedContent_def)
      finally show ?thesis .
    qed
    ultimately show ?thesis using tc True rt by (simp add: currentThread_def)
  qed
qed

lemma threadContent_again:
  assumes p: "positioned m" and i: "ID (threads m ! nat (index m)) \<noteq> []"
    and c: "cachedContent m (ID (threads m ! nat (index m))) (contentWidth (viewport m)) = c"
    and z: "c = [] \<longrightarrow> Comments (threads m ! nat (index m)) = []"
  shows "\<exists>m2. threadContent e m = Inr (c, m2) \<and> renderCalls m2 = renderCalls m \<and>
           (c \<noteq> [] \<longrightarrow> m2 = m)"
proof (cases "c = []")
  case False
  with c threadContent_hit [OF p, of e] show ?thesis by simp
next
  case True
  let ?t = "threads m ! nat (index m)"
  let ?w = "contentWidth (viewport m)"
  obtain r m1 where rf: "rendererForWidth e m ?w = (r, m1)"
    by (cases "rendererForWidth e m ?w")
  from True z have nc: "Comments ?t = []" by simp
  from True c have "cachedContent m (ID ?t) ?w = []" by simp
  from threadContent_miss [OF p this rf] nc rendererForWidth_keeps [OF rf] True
  show ?thesis by (simp add: storeContent_renderCalls)
qed

text \<open>A thread with no ID: nothing is looked up and nothing is stored.\<close>

lemma threadContent_anonymous:
  assumes p: "positioned m" and i: "ID (currentThread m) = []"
  shows "\<exists>m1. threadContent e m = Inr (renderThread e m, m1) \<and> sameBrowser m m1 \<and>
           contentCache m1 = contentCache m \<and>
           renderCalls m1 = renderCalls m + length (Comments (currentThread m))"
proof -
  let ?t = "threads m ! nat (index m)"
  let ?w = "contentWidth (viewport m)"
  from i have i': "ID ?t = []" by (simp add: currentThread_def)
  then have miss: "cachedContent m (ID ?t) ?w = []" by (simp add: cachedContent_def)
  obtain r m1 where rf: "rendererForWidth e m ?w = (r, m1)"
    by (cases "rendererForWidth e m ?w")
  from rf have rt: "renderThread e m = writeComments (newStyler e) (newStyler e) r ?w [] (Comments ?t)"
    by (simp add: renderThread_def currentThread_def)
  from rendererForWidth_same [OF rf] have sb: "sameBrowser m m1" .
  from threadContent_miss [OF p miss rf] i' rt
  have tc: "threadContent e m =
      Inr (renderThread e m, m1\<lparr>renderCalls := renderCalls m1 + length (Comments ?t)\<rparr>)"
    by (simp add: storeContent_def)
  from sb have "sameBrowser m (m1\<lparr>renderCalls := renderCalls m1 + length (Comments ?t)\<rparr>)"
    by (simp add: sameBrowser_def)
  with tc rendererForWidth_keeps [OF rf] show ?thesis by (simp add: currentThread_def)
qed

text \<open>
  C1, as the code has it. On a thread whose ID is not empty, \<open>threadContent\<close> returns
  the entry the cache holds for the thread's ID and the width rendered at (a viewport
  width of 0 or less counts as 120) or, when that entry is missing or empty, what
  \<open>renderThread\<close> builds at that width, and stores it as that entry. A second
  computation, in whatever environment, returns the same content without a call of
  \<open>formatCommentBodyWithRenderer\<close>, and leaves the state as it is when the thread has a
  comment (the empty content of a thread without comments reads as a miss, and is built
  again from nothing). After a change to a different width the content is what the cache
  held for that width before, or what \<open>renderThread\<close> builds at the new width, and
  the cache then holds an entry for each of the two widths. On a thread whose ID is
  empty every computation returns what \<open>renderThread\<close> builds, makes one call of the
  pipeline for each comment and leaves the cache as it was, in a state on the same
  thread, so the next computation does the same.
\<close>

theorem threadContent_cached:
  assumes "positioned m"
  shows "(ID (currentThread m) \<noteq> [] \<longrightarrow>
           (\<exists>c m1. threadContent e m = Inr (c, m1) \<and>
              c = (if cachedContent m (ID (currentThread m)) (contentWidth (viewport m)) = []
                   then renderThread e m
                   else cachedContent m (ID (currentThread m)) (contentWidth (viewport m))) \<and>
              cachedContent m1 (ID (currentThread m)) (contentWidth (viewport m)) = c \<and>
              (\<exists>m2. threadContent e' m1 = Inr (c, m2) \<and> renderCalls m2 = renderCalls m1 \<and>
                    (Comments (currentThread m) \<noteq> [] \<longrightarrow> m2 = m1)) \<and>
              (\<forall>v. contentWidth (viewport (resized m1 v)) \<noteq> contentWidth (viewport m) \<longrightarrow>
                 (\<exists>c' m3. threadContent e' (resized m1 v) = Inr (c', m3) \<and>
                    c' = (if cachedContent m (ID (currentThread m))
                               (contentWidth (viewport (resized m1 v))) = []
                          then renderThread e' (resized m1 v)
                          else cachedContent m (ID (currentThread m))
                                 (contentWidth (viewport (resized m1 v)))) \<and>
                    cachedContent m3 (ID (currentThread m))
                      (contentWidth (viewport (resized m1 v))) = c' \<and>
                    cachedContent m3 (ID (currentThread m)) (contentWidth (viewport m)) = c)))) \<and>
         (ID (currentThread m) = [] \<longrightarrow>
           (\<exists>m1. threadContent e m = Inr (renderThread e m, m1) \<and>
              renderCalls m1 = renderCalls m + length (Comments (currentThread m)) \<and>
              contentCache m1 = contentCache m \<and>
              positioned m1 \<and> currentThread m1 = currentThread m))"
proof (intro conjI impI)
  assume i: "ID (currentThread m) \<noteq> []"
  let ?t = "currentThread m"
  let ?w = "contentWidth (viewport m)"
  note p = assms
  from threadContent_value [OF p i, of e] obtain c m1 where
    tc: "threadContent e m = Inr (c, m1)" and sb: "sameBrowser m m1" and
    cv: "c = (if cachedContent m (ID ?t) ?w = [] then renderThread e m else cachedContent m (ID ?t) ?w)" and
    cc: "cachedContent m1 (ID ?t) ?w = c" and z: "c = [] \<longrightarrow> Comments ?t = []" and
    ot: "\<forall>w'. w' \<noteq> ?w \<longrightarrow> cachedContent m1 (ID ?t) w' = cachedContent m (ID ?t) w'" by blast
  from sb have same: "threads m1 = threads m" "index m1 = index m" "viewport m1 = viewport m"
    by (simp_all add: sameBrowser_def)
  then have ct: "currentThread m1 = ?t" by (simp add: currentThread_def)
  from p same have p1: "positioned m1" by (simp add: positioned_def)
  from i ct have i1: "ID (threads m1 ! nat (index m1)) \<noteq> []" by (simp add: currentThread_def)
  from cc same ct have cc1:
    "cachedContent m1 (ID (threads m1 ! nat (index m1))) (contentWidth (viewport m1)) = c"
    by (simp add: currentThread_def)
  from z ct have z1: "c = [] \<longrightarrow> Comments (threads m1 ! nat (index m1)) = []"
    by (simp add: currentThread_def)
  from threadContent_again [OF p1 i1 cc1 z1, of e'] z have second:
    "\<exists>m2. threadContent e' m1 = Inr (c, m2) \<and> renderCalls m2 = renderCalls m1 \<and>
          (Comments ?t \<noteq> [] \<longrightarrow> m2 = m1)" by blast
  have other: "\<exists>c' m3. threadContent e' (resized m1 v) = Inr (c', m3) \<and>
                 c' = (if cachedContent m (ID ?t) (contentWidth (viewport (resized m1 v))) = []
                       then renderThread e' (resized m1 v)
                       else cachedContent m (ID ?t) (contentWidth (viewport (resized m1 v)))) \<and>
                 cachedContent m3 (ID ?t) (contentWidth (viewport (resized m1 v))) = c' \<and>
                 cachedContent m3 (ID ?t) ?w = c"
    if d: "contentWidth (viewport (resized m1 v)) \<noteq> ?w" for v
  proof -
    let ?m = "resized m1 v"
    let ?v = "contentWidth (viewport ?m)"
    from same have rs: "threads ?m = threads m" "index ?m = index m"
      "contentCache ?m = contentCache m1" by (simp_all add: resized_def)
    then have ctr: "currentThread ?m = ?t" by (simp add: currentThread_def)
    from p rs have pr: "positioned ?m" by (simp add: positioned_def)
    from i ctr have ir: "ID (currentThread ?m) \<noteq> []" by simp
    have cm: "cachedContent ?m (ID ?t) x = cachedContent m1 (ID ?t) x" for x
      using rs(3) by (simp add: cachedContent_def)
    from d ot have old: "cachedContent ?m (ID ?t) ?v = cachedContent m (ID ?t) ?v"
      unfolding cm by blast
    from threadContent_value [OF pr ir, of e'] obtain c' m3 where
      t3: "threadContent e' ?m = Inr (c', m3)" and
      v3: "c' = (if cachedContent ?m (ID ?t) ?v = [] then renderThread e' ?m
                 else cachedContent ?m (ID ?t) ?v)" and
      c3: "cachedContent m3 (ID ?t) ?v = c'" and
      o3: "\<forall>x. x \<noteq> ?v \<longrightarrow> cachedContent m3 (ID ?t) x = cachedContent ?m (ID ?t) x"
      unfolding ctr by blast
    from d o3 have "cachedContent m3 (ID ?t) ?w = cachedContent ?m (ID ?t) ?w" by metis
    also have "\<dots> = cachedContent m1 (ID ?t) ?w" by (rule cm)
    also from cc have "\<dots> = c" .
    finally have keep: "cachedContent m3 (ID ?t) ?w = c" .
    from v3 have v3': "c' = (if cachedContent m (ID ?t) ?v = [] then renderThread e' ?m
                 else cachedContent m (ID ?t) ?v)" unfolding old .
    from t3 v3' c3 keep show ?thesis by blast
  qed
  from tc cv cc second other
  show "\<exists>c m1. threadContent e m = Inr (c, m1) \<and>
              c = (if cachedContent m (ID ?t) ?w = [] then renderThread e m
                   else cachedContent m (ID ?t) ?w) \<and>
              cachedContent m1 (ID ?t) ?w = c \<and>
              (\<exists>m2. threadContent e' m1 = Inr (c, m2) \<and> renderCalls m2 = renderCalls m1 \<and>
                    (Comments ?t \<noteq> [] \<longrightarrow> m2 = m1)) \<and>
              (\<forall>v. contentWidth (viewport (resized m1 v)) \<noteq> ?w \<longrightarrow>
                 (\<exists>c' m3. threadContent e' (resized m1 v) = Inr (c', m3) \<and>
                    c' = (if cachedContent m (ID ?t) (contentWidth (viewport (resized m1 v))) = []
                          then renderThread e' (resized m1 v)
                          else cachedContent m (ID ?t) (contentWidth (viewport (resized m1 v)))) \<and>
                    cachedContent m3 (ID ?t) (contentWidth (viewport (resized m1 v))) = c' \<and>
                    cachedContent m3 (ID ?t) ?w = c))"
    by blast
next
  assume i: "ID (currentThread m) = []"
  from threadContent_anonymous [OF assms i, of e] obtain m1 where
    tc: "threadContent e m = Inr (renderThread e m, m1)" and sb: "sameBrowser m m1" and
    k: "contentCache m1 = contentCache m" and
    r: "renderCalls m1 = renderCalls m + length (Comments (currentThread m))" by blast
  from sb have same: "threads m1 = threads m" "index m1 = index m"
    by (simp_all add: sameBrowser_def)
  with assms have "positioned m1" and "currentThread m1 = currentThread m"
    by (simp_all add: positioned_def currentThread_def)
  with tc k r
  show "\<exists>m1. threadContent e m = Inr (renderThread e m, m1) \<and>
              renderCalls m1 = renderCalls m + length (Comments (currentThread m)) \<and>
              contentCache m1 = contentCache m \<and>
              positioned m1 \<and> currentThread m1 = currentThread m"
    by blast
qed

theorem threadContent_cached_witness:
  "positioned browser2 \<and> ID (currentThread browser2) = str ''T1'' \<and>
   (\<exists>c m1. threadContent env0 browser2 = Inr (c, m1) \<and> c = renderThread env0 browser2 \<and>
      cachedContent m1 (str ''T1'') 120 = c \<and>
      (\<exists>m2. threadContent env0 m1 = Inr (c, m2) \<and> renderCalls m2 = renderCalls m1 \<and> m2 = m1) \<and>
      (\<exists>c' m3. threadContent env0 (resized m1 80) = Inr (c', m3) \<and>
         c' = renderThread env0 (resized m1 80) \<and>
         cachedContent m3 (str ''T1'') 80 = c' \<and> cachedContent m3 (str ''T1'') 120 = c)) \<and>
   positioned browserAnon \<and> ID (currentThread browserAnon) = [] \<and>
   (\<exists>m1. threadContent env0 browserAnon = Inr (renderThread env0 browserAnon, m1) \<and>
      renderCalls m1 = renderCalls browserAnon + length (Comments (currentThread browserAnon)) \<and>
      contentCache m1 = contentCache browserAnon \<and>
      positioned m1 \<and> currentThread m1 = currentThread browserAnon)"
proof -
  have p: "positioned browser2"
    by (simp add: positioned_def browser2_def browser_defs)
  have i: "ID (currentThread browser2) = str ''T1''"
    by (simp add: currentThread_def browser2_def browser_defs)
  have n: "str ''T1'' \<noteq> []" by (simp add: str_def)
  have k: "Comments (currentThread browser2) \<noteq> []"
    by (simp add: currentThread_def browser2_def browser_defs)
  have w: "contentWidth (viewport browser2) = 120"
    by (simp add: contentWidth_def browser2_def browser_defs)
  have e: "cachedContent browser2 (str ''T1'') x = []" for x
    by (simp add: cachedContent_def browser2_def browser_defs)
  have v: "contentWidth (viewport (resized m 80)) = 80" for m
    by (simp add: contentWidth_def resized_def)
  have pa: "positioned browserAnon"
    by (simp add: positioned_def browserAnon_def browser_defs)
  have ia: "ID (currentThread browserAnon) = []"
    by (simp add: currentThread_def browserAnon_def browser_defs)
  from threadContent_cached [OF p, of env0 env0] i n k have
    "\<exists>c m1. threadContent env0 browser2 = Inr (c, m1) \<and> c = renderThread env0 browser2 \<and>
      cachedContent m1 (str ''T1'') 120 = c \<and>
      (\<exists>m2. threadContent env0 m1 = Inr (c, m2) \<and> renderCalls m2 = renderCalls m1 \<and> m2 = m1) \<and>
      (\<forall>v. contentWidth (viewport (resized m1 v)) \<noteq> 120 \<longrightarrow>
         (\<exists>c' m3. threadContent env0 (resized m1 v) = Inr (c', m3) \<and>
            c' = renderThread env0 (resized m1 v) \<and>
            cachedContent m3 (str ''T1'') (contentWidth (viewport (resized m1 v))) = c' \<and>
            cachedContent m3 (str ''T1'') 120 = c))"
    by (simp add: w e)
  then obtain c m1 where
    a1: "threadContent env0 browser2 = Inr (c, m1)" and a2: "c = renderThread env0 browser2" and
    a3: "cachedContent m1 (str ''T1'') 120 = c" and
    a4: "\<exists>m2. threadContent env0 m1 = Inr (c, m2) \<and> renderCalls m2 = renderCalls m1 \<and> m2 = m1" and
    a5: "\<forall>v. contentWidth (viewport (resized m1 v)) \<noteq> 120 \<longrightarrow>
         (\<exists>c' m3. threadContent env0 (resized m1 v) = Inr (c', m3) \<and>
            c' = renderThread env0 (resized m1 v) \<and>
            cachedContent m3 (str ''T1'') (contentWidth (viewport (resized m1 v))) = c' \<and>
            cachedContent m3 (str ''T1'') 120 = c)" by blast
  from a5 [rule_format, of 80] have a6:
    "\<exists>c' m3. threadContent env0 (resized m1 80) = Inr (c', m3) \<and>
         c' = renderThread env0 (resized m1 80) \<and>
         cachedContent m3 (str ''T1'') 80 = c' \<and> cachedContent m3 (str ''T1'') 120 = c"
    by (simp add: v)
  from a1 a2 a3 a4 a6 have first:
    "\<exists>c m1. threadContent env0 browser2 = Inr (c, m1) \<and> c = renderThread env0 browser2 \<and>
      cachedContent m1 (str ''T1'') 120 = c \<and>
      (\<exists>m2. threadContent env0 m1 = Inr (c, m2) \<and> renderCalls m2 = renderCalls m1 \<and> m2 = m1) \<and>
      (\<exists>c' m3. threadContent env0 (resized m1 80) = Inr (c', m3) \<and>
         c' = renderThread env0 (resized m1 80) \<and>
         cachedContent m3 (str ''T1'') 80 = c' \<and> cachedContent m3 (str ''T1'') 120 = c)"
    by blast
  from threadContent_cached [OF pa, of env0 env0] ia have second:
    "\<exists>m1. threadContent env0 browserAnon = Inr (renderThread env0 browserAnon, m1) \<and>
      renderCalls m1 = renderCalls browserAnon + length (Comments (currentThread browserAnon)) \<and>
      contentCache m1 = contentCache browserAnon \<and>
      positioned m1 \<and> currentThread m1 = currentThread browserAnon"
    by simp
  from p i first pa ia second show ?thesis by blast
qed

text \<open>
  C1 as stated fails for a thread with an empty ID: \<open>cachedContent\<close> and \<open>storeContent\<close>
  skip it, so the second computation renders the comment again (the counter goes from 1
  to 2). And two viewport widths need not give two entries: 0 and 120 are rendered at
  the same width.
\<close>

theorem threadContent_uncached_counterexample:
  "threadContent env0 browserAnon =
     Inr ([0x2022] @ str '' alice '' @ [0x2014] @ str '' 2024-01-01'' @ [0x0A, 0x0A] @
          str ''  hello world'' @ [0x0A], browserAnon\<lparr>renderCalls := 1\<rparr>) \<and>
   threadContent env0 (browserAnon\<lparr>renderCalls := 1\<rparr>) =
     Inr ([0x2022] @ str '' alice '' @ [0x2014] @ str '' 2024-01-01'' @ [0x0A, 0x0A] @
          str ''  hello world'' @ [0x0A], browserAnon\<lparr>renderCalls := 2\<rparr>) \<and>
   ID (currentThread browserAnon) = [] \<and>
   contentWidth (viewport (resized browser2 0)) = contentWidth (viewport (resized browser2 120))"
  by (simp add: browserAnon_def browser2_def resized_def currentThread_def browser_defs render_defs
      reflow_defs Let_def)

text \<open>
  C9. When styling is off, the renderer is nil or could not be built, or \<open>Render\<close> fails,
  both formatting functions return what \<open>wrapPlainText\<close> returns for the body; their
  result type has no error. \<open>formatCommentBody\<close> builds its renderer for the width
  \<open>width-len(indent)\<close> as Go computes it, raised to 20 when smaller; the last fact of
  the witness is at the least \<open>int\<close>, where the subtraction wraps.
\<close>

theorem markdown_fallback:
  "(\<not> enabled st \<or> renderer = None \<or> (\<exists>r err. renderer = Some r \<and> r body = Inl err) \<longrightarrow>
      formatCommentBodyWithRenderer body ind w st renderer = wrapPlainText body ind w) \<and>
   (\<not> enabled st \<or>
    (\<exists>err. New (if int64 (w - len ind) < 20 then 20 else int64 (w - len ind)) = Inl err) \<or>
    (\<exists>r err. New (if int64 (w - len ind) < 20 then 20 else int64 (w - len ind)) = Inr r \<and>
       r body = Inl err) \<longrightarrow>
      formatCommentBody New body ind w st = wrapPlainText body ind w)"
  by (auto simp: formatCommentBodyWithRenderer_def formatCommentBody_def renderMarkdown_def Let_def)

theorem markdown_fallback_witness:
  "formatCommentBodyWithRenderer (str ''hello world'') (str ''  '') 80 \<lparr>enabled = True\<rparr>
     (Some (\<lambda>b. Inl (Error (str ''render failed'')))) = [str ''  hello world''] \<and>
   formatCommentBodyWithRenderer (str ''hello world'') (str ''  '') 80 \<lparr>enabled = True\<rparr> None
     = [str ''  hello world''] \<and>
   formatCommentBody (\<lambda>n. Inl (Error (str ''no renderer''))) (str ''hello world'') (str ''  '') 80
     \<lparr>enabled = True\<rparr> = [str ''  hello world''] \<and>
   wrapPlainText (str ''hello world'') (str ''  '') 80 = [str ''  hello world''] \<and>
   formatCommentBody (\<lambda>n. if n = 9223372036854775806 then Inl (Error (str ''too wide''))
                           else Inr (\<lambda>b. Inr b))
     (str ''hello world'') (str ''  '') (- 9223372036854775808) \<lparr>enabled = True\<rparr> =
     wrapPlainText (str ''hello world'') (str ''  '') (- 9223372036854775808)"
proof -
  have w: "wrapPlainText (str ''hello world'') (str ''  '') 80 = [str ''  hello world'']"
    by (simp add: reflow_defs)
  have m: "int64 (- 9223372036854775808 - len (str ''  '')) = 9223372036854775806"
    by (simp add: int64_def len_def utf8len_def str_def)
  from markdown_fallback [of "\<lparr>enabled = True\<rparr>" None "str ''hello world''" "str ''  ''"
      "- 9223372036854775808"
      "\<lambda>n. if n = 9223372036854775806 then Inl (Error (str ''too wide'')) else Inr (\<lambda>b. Inr b)"]
  have x: "formatCommentBody (\<lambda>n. if n = 9223372036854775806 then Inl (Error (str ''too wide''))
                           else Inr (\<lambda>b. Inr b))
     (str ''hello world'') (str ''  '') (- 9223372036854775808) \<lparr>enabled = True\<rparr> =
     wrapPlainText (str ''hello world'') (str ''  '') (- 9223372036854775808)"
    unfolding m by simp
  from markdown_fallback [of "\<lparr>enabled = True\<rparr>" "Some (\<lambda>b. Inl (Error (str ''render failed'')))"
      "str ''hello world''" "str ''  ''" 80 "\<lambda>n. Inl (Error (str ''no renderer''))"]
    markdown_fallback [of "\<lparr>enabled = True\<rparr>" None
      "str ''hello world''" "str ''  ''" 80 "\<lambda>n. Inl (Error (str ''no renderer''))"]
    w x show ?thesis by simp
qed

section \<open>Facts about the string functions\<close>

lemma len_Nil [simp]: "len [] = 0"
  by (simp add: len_def)

lemma len_append [simp]: "len (a @ b) = len a + len b"
  by (simp add: len_def)

lemma len_space [simp]: "len (str '' '') = 1"
  by (simp add: len_def str_def utf8len_def)

lemma len_nonneg [simp]: "0 \<le> len s"
  by (simp add: len_def)

lemma isSpace_space [simp]: "isSpace 0x20"
  by (simp add: isSpace_def)

lemma isSpace_newline [simp]: "isSpace 0x0A"
  by (simp add: isSpace_def)

lemma str_space [simp]: "str '' '' = [0x20]"
  by (simp add: str_def)

lemma str_newline [simp]: "str [CHR 0x0A] = [0x0A]"
  by (simp add: str_def)

lemma fieldsFrom_space:
  "isSpace c \<Longrightarrow> fieldsFrom cur (a @ c # b) = fieldsFrom cur a @ Fields b"
  by (induction a arbitrary: cur) (simp_all add: Fields_def)

lemma Fields_space:
  "isSpace c \<Longrightarrow> Fields (a @ c # b) = Fields a @ Fields b"
  unfolding Fields_def by (simp add: fieldsFrom_space [unfolded Fields_def])

lemma Fields_Nil [simp]: "Fields [] = []"
  by (simp add: Fields_def)

lemma fieldsFrom_word:
  "\<forall>c \<in> set w. \<not> isSpace c \<Longrightarrow> cur @ w \<noteq> [] \<Longrightarrow> fieldsFrom cur w = [cur @ w]"
  by (induction w arbitrary: cur) auto

lemma Fields_word:
  "\<forall>c \<in> set w. \<not> isSpace c \<Longrightarrow> w \<noteq> [] \<Longrightarrow> Fields w = [w]"
  unfolding Fields_def using fieldsFrom_word [of w "[]"] by simp

lemma fieldsFrom_proper:
  "\<forall>c \<in> set cur. \<not> isSpace c \<Longrightarrow> w \<in> set (fieldsFrom cur s) \<Longrightarrow>
   w \<noteq> [] \<and> (\<forall>c \<in> set w. \<not> isSpace c)"
proof (induction s arbitrary: cur)
  case Nil
  then show ?case by (auto split: if_splits)
next
  case (Cons a s)
  show ?case
  proof (cases "isSpace a")
    case True
    with Cons.prems(2) have "w = cur \<and> cur \<noteq> [] \<or> w \<in> set (fieldsFrom [] s)"
      by (auto split: if_splits)
    then show ?thesis using Cons.IH [of "[]"] Cons.prems(1) by auto
  next
    case False
    with Cons.prems(2) have "w \<in> set (fieldsFrom (cur @ [a]) s)" by simp
    with Cons.IH [of "cur @ [a]"] Cons.prems(1) False show ?thesis by auto
  qed
qed

lemma Fields_proper:
  "w \<in> set (Fields s) \<Longrightarrow> w \<noteq> [] \<and> (\<forall>c \<in> set w. \<not> isSpace c)"
  unfolding Fields_def using fieldsFrom_proper [of "[]" w s] by simp

lemma Fields_of_field: "w \<in> set (Fields s) \<Longrightarrow> Fields w = [w]"
  using Fields_proper [of w s] Fields_word [of w] by blast

lemma Fields_spaces: "\<forall>c \<in> set s. isSpace c \<Longrightarrow> Fields s = []"
  unfolding Fields_def by (induction s) simp_all

lemma Fields_dropWhile: "Fields (dropWhile isSpace s) = Fields s"
  unfolding Fields_def by (induction s) simp_all

lemma Fields_append_spaces:
  "\<forall>c \<in> set t. isSpace c \<Longrightarrow> Fields (s @ t) = Fields s"
proof (cases t)
  case Nil
  then show ?thesis by simp
next
  case (Cons c t')
  assume "\<forall>c \<in> set t. isSpace c"
  with Cons have "isSpace c" and "\<forall>c \<in> set t'. isSpace c" by simp_all
  then show ?thesis using Cons by (simp add: Fields_space Fields_spaces)
qed

lemma rev_dropWhile_rev: "\<exists>t. s = rev (dropWhile P (rev s)) @ t \<and> (\<forall>c \<in> set t. P c)"
proof -
  have "rev s = takeWhile P (rev s) @ dropWhile P (rev s)" by simp
  then have "s = rev (dropWhile P (rev s)) @ rev (takeWhile P (rev s))"
    by (metis rev_append rev_rev_ident)
  moreover have "\<forall>c \<in> set (rev (takeWhile P (rev s))). P c"
    by (auto dest: set_takeWhileD)
  ultimately show ?thesis by blast
qed

lemma Fields_trim_right: "Fields (rev (dropWhile isSpace (rev s))) = Fields s"
proof -
  from rev_dropWhile_rev [of s isSpace] obtain t where
    "s = rev (dropWhile isSpace (rev s)) @ t" and "\<forall>c \<in> set t. isSpace c" by blast
  then show ?thesis by (metis Fields_append_spaces)
qed

lemma Fields_TrimSpace [simp]: "Fields (TrimSpace s) = Fields s"
  by (simp add: TrimSpace_def Fields_trim_right Fields_dropWhile)

lemma TrimSpace_empty_Fields: "TrimSpace s = [] \<Longrightarrow> Fields s = []"
  using Fields_TrimSpace [of s] by simp

lemma Fields_TrimRight_newline [simp]: "Fields (TrimRight s [0x0A]) = Fields s"
proof -
  from rev_dropWhile_rev [of s "\<lambda>r. r \<in> set [0x0A]"] obtain t where
    "s = TrimRight s [0x0A] @ t" and "\<forall>c \<in> set t. c \<in> set [0x0A::nat]"
    unfolding TrimRight_def by blast
  then have "s = TrimRight s [0x0A] @ t" and "\<forall>c \<in> set t. isSpace c" by auto
  then show ?thesis by (metis Fields_append_spaces)
qed

lemma Fields_Join:
  "isSpace c \<Longrightarrow> Fields (Join ps [c]) = concat (map Fields ps)"
  by (induction ps "[c]" rule: Join.induct) (simp_all add: Fields_space)

lemma HasPrefix_single: "HasPrefix s [c] \<longleftrightarrow> s \<noteq> [] \<and> hd s = c"
  by (cases s) (simp_all add: HasPrefix_def)

lemma Join_snoc: "xs \<noteq> [] \<Longrightarrow> Join (xs @ [a]) sep = Join xs sep @ sep @ a"
  by (induction xs sep rule: Join.induct) simp_all

lemma Join_Cons: "xs \<noteq> [] \<Longrightarrow> Join (a # xs) sep = a @ sep @ Join xs sep"
  by (cases xs) simp_all

lemma splitFrom_nonempty: "splitFrom sep cur s \<noteq> []"
  by (induction sep cur s rule: splitFrom.induct) (subst splitFrom.simps, simp)

lemma Join_splitFrom: "Join (splitFrom [c] cur s) [c] = cur @ s"
proof (induction "[c]" cur s rule: splitFrom.induct)
  case (1 cur s)
  show ?case
  proof (cases s)
    case Nil
    then show ?thesis by (subst splitFrom.simps) simp
  next
    case (Cons x xs)
    show ?thesis
    proof (cases "x = c")
      case True
      with Cons have hp: "HasPrefix s [c]" by (simp add: HasPrefix_def)
      from Cons have ne: "s \<noteq> []" by simp
      from "1.hyps"(1) [OF ne] hp have "Join (splitFrom [c] [] (drop (length [c]) s)) [c] = [] @ drop (length [c]) s"
        by simp
      with Cons True hp show ?thesis
        by (subst splitFrom.simps) (simp add: Join_Cons splitFrom_nonempty)
    next
      case False
      with Cons have hp: "\<not> ([c] \<noteq> [] \<and> HasPrefix s [c])" by (simp add: HasPrefix_def)
      from Cons have ne: "s \<noteq> []" by simp
      from "1.hyps"(2) [OF ne hp] Cons False hp show ?thesis
        by (subst splitFrom.simps) simp
    qed
  qed
qed

lemma Join_Split: "Join (Split s [c]) [c] = s"
  by (simp add: Split_def Join_splitFrom)

lemma Split_nonempty: "Split s [c] \<noteq> []"
  by (simp add: Split_def splitFrom_nonempty)

lemma Fields_bodyLines: "concat (map Fields (bodyLines body)) = Fields body"
proof -
  have "concat (map Fields (bodyLines body)) = Fields (Join (bodyLines body) [0x0A])"
    by (simp add: Fields_Join)
  also have "\<dots> = Fields (TrimRight body [0x0A])"
    by (simp add: bodyLines_def Join_Split)
  finally show ?thesis by simp
qed

section \<open>Properties of wrapText\<close>

lemma wrapWords_fields:
  "\<forall>w \<in> set ws. Fields w = [w] \<Longrightarrow>
   concat (map Fields (wrapWords wd cur lines ws)) = concat (map Fields lines) @ Fields cur @ ws"
proof (induction ws arbitrary: cur lines)
  case Nil
  then show ?case by simp
next
  case (Cons word rest)
  then have w: "Fields word = [word]" and r: "\<forall>w \<in> set rest. Fields w = [w]" by simp_all
  show ?case
  proof (cases "len cur + 1 + len word > wd")
    case True
    with Cons.IH [OF r, of word "lines @ [cur]"] w show ?thesis by simp
  next
    case False
    have "Fields (cur @ 0x20 # word) = Fields cur @ Fields word"
      by (rule Fields_space) simp
    with False Cons.IH [OF r, of "cur @ str '' '' @ word" lines] w show ?thesis by simp
  qed
qed

lemma wrapText_fields: "concat (map Fields (wrapText text wd)) = Fields text"
proof (cases "Fields text")
  case Nil
  then show ?thesis by (simp add: wrapText_def)
next
  case (Cons word rest)
  then have "\<forall>w \<in> set (word # rest). Fields w = [w]"
    by (metis Fields_of_field)
  then have "Fields word = [word]" and "\<forall>w \<in> set rest. Fields w = [w]" by simp_all
  with Cons wrapWords_fields [of rest wd word "[]"] show ?thesis
    by (simp add: wrapText_def)
qed

text \<open>A line is within the wd, or it is one of the words, longer than the wd.\<close>

lemma len_space_Cons [simp]: "len (0x20 # s) = 1 + len s"
  by (simp add: len_def utf8len_def)

lemma wrapWords_fits:
  "fits wd W cur \<Longrightarrow> \<forall>l \<in> set lines. fits wd W l \<Longrightarrow> set ws \<subseteq> W \<Longrightarrow>
   \<forall>l \<in> set (wrapWords wd cur lines ws). fits wd W l"
proof (induction ws arbitrary: cur lines)
  case Nil
  then show ?case by simp
next
  case (Cons word rest)
  from Cons.prems(3) have wW: "word \<in> W" and rW: "set rest \<subseteq> W" by simp_all
  show ?case
  proof (cases "len cur + 1 + len word > wd")
    case True
    from wW have fw: "fits wd W word" by (auto simp: fits_def)
    from Cons.prems(1,2) have fl: "\<forall>l \<in> set (lines @ [cur]). fits wd W l" by simp
    from Cons.IH [OF fw fl rW] True show ?thesis by simp
  next
    case False
    then have "fits wd W (cur @ str '' '' @ word)" by (simp add: fits_def)
    from Cons.IH [OF this Cons.prems(2) rW] False show ?thesis by simp
  qed
qed

lemma wrapText_fits:
  "\<forall>l \<in> set (wrapText text wd). fits wd (set (Fields text)) l \<or> (l = [] \<and> Fields text = [])"
proof (cases "Fields text")
  case Nil
  then show ?thesis by (simp add: wrapText_def)
next
  case (Cons word rest)
  then have "fits wd (set (Fields text)) word" by (auto simp: fits_def)
  moreover have "\<forall>l \<in> set []. fits wd (set (Fields text)) l" by simp
  moreover from Cons have "set rest \<subseteq> set (Fields text)" by auto
  ultimately have "\<forall>l \<in> set (wrapWords wd word [] rest). fits wd (set (Fields text)) l"
    by (rule wrapWords_fits)
  with Cons show ?thesis by (simp add: wrapText_def)
qed

text \<open>A word longer than the wd gets a line of its own.\<close>

lemma wrapWords_long:
  "set lines \<subseteq> set (wrapWords wd cur lines ws) \<and>
   (len cur > wd \<longrightarrow> cur \<in> set (wrapWords wd cur lines ws)) \<and>
   (\<forall>w \<in> set ws. len w > wd \<longrightarrow> w \<in> set (wrapWords wd cur lines ws))"
proof (induction ws arbitrary: cur lines)
  case Nil
  then show ?case by auto
next
  case (Cons word rest)
  show ?case
  proof (cases "len cur + 1 + len word > wd")
    case True
    then have eq: "wrapWords wd cur lines (word # rest) = wrapWords wd word (lines @ [cur]) rest"
      by simp
    from Cons.IH [of "lines @ [cur]" word] show ?thesis unfolding eq by auto
  next
    case False
    then have eq: "wrapWords wd cur lines (word # rest) =
        wrapWords wd (cur @ str '' '' @ word) lines rest" by simp
    from False have a: "\<not> len cur > wd" and b: "\<not> len word > wd"
      using len_nonneg [of cur] len_nonneg [of word] by linarith+
    from Cons.IH [of lines "cur @ str '' '' @ word"] a b show ?thesis unfolding eq by auto
  qed
qed

lemma wrapText_long:
  "w \<in> set (Fields text) \<Longrightarrow> len w > wd \<Longrightarrow> w \<in> set (wrapText text wd)"
proof (cases "Fields text")
  case Nil
  assume "w \<in> set (Fields text)" with Nil show ?thesis by simp
next
  case (Cons word rest)
  assume "w \<in> set (Fields text)" and "len w > wd"
  with Cons wrapWords_long [of "[]" wd word rest] show ?thesis
    by (auto simp: wrapText_def)
qed

section \<open>Properties of wrapPlainText\<close>

lemma flushParagraph_eq:
  "flushParagraph I M (out, para) = (out @ flushed I M para, [])"
  by (simp add: flushParagraph_def flushed_def)

lemma wrapLines_Nil: "wrapLines I M [] (out, para, f) = out @ flushed I M para"
  by (simp add: flushParagraph_eq)

lemma wrapLines_append:
  "wrapLines I M (xs @ ys) st = wrapLines I M ys (runLines I M xs st)"
  by (induction xs arbitrary: st) (simp_all add: runLines_def)

lemma runLines_Nil [simp]: "runLines I M [] st = st"
  by (simp add: runLines_def)

lemma runLines_Cons [simp]: "runLines I M (l # ls) st = runLines I M ls (lineStep I M l st)"
  by (simp add: runLines_def)

text \<open>The four branches of the loop body.\<close>

lemma lineStep_fence:
  "isFenceLine l \<Longrightarrow>
   lineStep I M l (out, para, f) =
     ((let o1 = out @ flushed I M para in if o1 \<noteq> [] \<and> last o1 \<noteq> I then o1 @ [I] else o1) @ [I @ l],
      [], \<not> f)"
  by (simp add: lineStep_def isFenceLine_def flushParagraph_eq Let_def)

lemma lineStep_inFence:
  "\<not> isFenceLine l \<Longrightarrow> lineStep I M l (out, para, True) = (out @ [I @ l], para, True)"
  by (simp add: lineStep_def isFenceLine_def)

lemma lineStep_blank:
  "\<not> isFenceLine l \<Longrightarrow> TrimSpace l = [] \<Longrightarrow>
   lineStep I M l (out, para, False) = (out @ flushed I M para @ [I], [], False)"
  by (simp add: lineStep_def isFenceLine_def flushParagraph_eq)

lemma lineStep_text:
  "\<not> isFenceLine l \<Longrightarrow> TrimSpace l \<noteq> [] \<Longrightarrow>
   lineStep I M l (out, para, False) = (out, para @ [TrimSpace l], False)"
  by (simp add: lineStep_def isFenceLine_def)

lemma lineStep_cases:
  obtains (fence) "isFenceLine l"
  | (inFence) "\<not> isFenceLine l" "f"
  | (blank) "\<not> isFenceLine l" "\<not> f" "TrimSpace l = []"
  | (prose) "\<not> isFenceLine l" "\<not> f" "TrimSpace l \<noteq> []"
  by blast

lemma wordsOf_Nil [simp]: "wordsOf I [] = []"
  by (simp add: wordsOf_def)

lemma wordsOf_append [simp]: "wordsOf I (a @ b) = wordsOf I a @ wordsOf I b"
  by (simp add: wordsOf_def)

lemma wordsOf_Cons [simp]: "wordsOf I (x # xs) = Fields (drop (length I) x) @ wordsOf I xs"
  by (simp add: wordsOf_def)

lemma wordsOf_indent [simp]: "wordsOf I [I] = []"
  by (simp add: wordsOf_def)

lemma wordsOf_line [simp]: "wordsOf I [I @ l] = Fields l"
  by (simp add: wordsOf_def)

lemma wordsOf_flushed [simp]: "wordsOf I (flushed I M para) = concat (map Fields para)"
proof -
  have "wordsOf I (map (\<lambda>wrapped. I @ wrapped) ls) = concat (map Fields ls)" for ls
    by (induction ls) (simp_all add: wordsOf_def)
  then show ?thesis
    by (simp add: flushed_def wrapText_fields Fields_Join)
qed

lemma lineStep_fence_para:
  assumes st: "lineStep I M l (out, para, f) = (out', para', f')" and inv: "f \<longrightarrow> para = []"
  shows "f' \<longrightarrow> para' = []"
proof (cases rule: lineStep_cases [where l = l and f = f])
  case fence
  with st show ?thesis by (simp add: lineStep_fence Let_def)
next
  case inFence
  with st inv show ?thesis by (auto simp: lineStep_inFence)
next
  case blank
  with st show ?thesis by (auto simp: lineStep_blank)
next
  case prose
  with st show ?thesis by (auto simp: lineStep_text)
qed

lemma lineStep_words:
  assumes st: "lineStep I M l (out, para, f) = (out', para', f')" and inv: "f \<longrightarrow> para = []"
  shows "wordsOf I out' @ concat (map Fields para') =
           wordsOf I out @ concat (map Fields para) @ Fields l"
proof (cases rule: lineStep_cases [where l = l and f = f])
  case fence
  let ?o1 = "out @ flushed I M para"
  let ?o2 = "if ?o1 \<noteq> [] \<and> last ?o1 \<noteq> I then ?o1 @ [I] else ?o1"
  from fence st have "out' = ?o2 @ [I @ l]" and "para' = []"
    by (simp_all add: lineStep_fence Let_def)
  moreover have "wordsOf I ?o2 = wordsOf I ?o1" by simp
  ultimately show ?thesis by simp
next
  case inFence
  with st inv show ?thesis by (auto simp: lineStep_inFence)
next
  case blank
  with st show ?thesis by (auto simp: lineStep_blank TrimSpace_empty_Fields)
next
  case prose
  with st show ?thesis by (auto simp: lineStep_text)
qed

lemma wrapLines_words:
  "f \<longrightarrow> para = [] \<Longrightarrow>
   wordsOf I (wrapLines I M ls (out, para, f)) =
     wordsOf I out @ concat (map Fields para) @ concat (map Fields ls)"
proof (induction ls arbitrary: out para f)
  case Nil
  show ?case by (simp add: flushParagraph_eq)
next
  case (Cons l ls)
  obtain out' para' f' where st: "lineStep I M l (out, para, f) = (out', para', f')"
    by (cases "lineStep I M l (out, para, f)")
  from lineStep_fence_para [OF st Cons.prems] have inv': "f' \<longrightarrow> para' = []" .
  from lineStep_words [OF st Cons.prems] Cons.IH [OF inv', of out'] st show ?case
    by (simp add: append_assoc [symmetric] del: append_assoc)
qed

lemma flushed_ok:
  assumes "len I \<le> M" and "\<forall>p \<in> set para. set (Fields p) \<subseteq> W"
  shows "\<forall>l \<in> set (flushed I M para). lineOk I M W l"
proof
  fix l assume "l \<in> set (flushed I M para)"
  then obtain wl where l: "l = I @ wl" and wl: "wl \<in> set (wrapText (Join para [0x20]) (M - len I))"
    by (auto simp: flushed_def split: if_splits)
  have "Fields (Join para [0x20]) = concat (map Fields para)" by (simp add: Fields_Join)
  with assms(2) have sub: "set (Fields (Join para [0x20])) \<subseteq> W" by auto
  from wrapText_fits [of "Join para [0x20]" "M - len I"] wl
  have "fits (M - len I) (set (Fields (Join para [0x20]))) wl \<or> wl = []" by blast
  then show "lineOk I M W l"
  proof
    assume "fits (M - len I) (set (Fields (Join para [0x20]))) wl"
    with sub l show ?thesis by (auto simp: fits_def lineOk_def)
  next
    assume "wl = []"
    with l assms(1) show ?thesis by (simp add: lineOk_def)
  qed
qed

lemma flushed_long:
  assumes "w \<in> set (concat (map Fields para))" and "len w > M - len I"
  shows "I @ w \<in> set (flushed I M para)"
proof -
  from assms(1) have ne: "para \<noteq> []" by auto
  have "Fields (Join para [0x20]) = concat (map Fields para)" by (simp add: Fields_Join)
  with assms(1) have "w \<in> set (Fields (Join para [0x20]))" by simp
  from wrapText_long [OF this assms(2)] ne show ?thesis by (simp add: flushed_def)
qed

lemma wrapLines_ok:
  assumes "len I \<le> M"
    and "\<forall>l \<in> set ls. \<not> isFenceLine l \<and> set (Fields l) \<subseteq> W"
    and "\<forall>p \<in> set para. set (Fields p) \<subseteq> W"
    and "\<forall>x \<in> set out. lineOk I M W x"
  shows "\<forall>x \<in> set (wrapLines I M ls (out, para, False)). lineOk I M W x"
  using assms(2-4)
proof (induction ls arbitrary: out para)
  case Nil
  with flushed_ok [OF assms(1), of para W] show ?case
    by (auto simp: flushParagraph_eq)
next
  case (Cons l ls)
  from Cons.prems(1) have nf: "\<not> isFenceLine l" and fl: "set (Fields l) \<subseteq> W"
    and rest: "\<forall>l \<in> set ls. \<not> isFenceLine l \<and> set (Fields l) \<subseteq> W" by simp_all
  show ?case
  proof (cases "TrimSpace l = []")
    case True
    have I: "lineOk I M W I" using assms(1) by (simp add: lineOk_def)
    from flushed_ok [OF assms(1) Cons.prems(2)] Cons.prems(3) I
    have oo: "\<forall>x \<in> set (out @ flushed I M para @ [I]). lineOk I M W x" by auto
    have p: "\<forall>p \<in> set []. set (Fields p) \<subseteq> W" by simp
    from Cons.IH [OF rest p oo] nf True show ?thesis by (simp add: lineStep_blank)
  next
    case False
    from fl Cons.prems(2) have p: "\<forall>p \<in> set (para @ [TrimSpace l]). set (Fields p) \<subseteq> W" by simp
    from Cons.IH [OF rest p Cons.prems(3)] nf False show ?thesis by (simp add: lineStep_text)
  qed
qed

lemma lineStep_prefix: "\<exists>X p' f'. lineStep I M l (out, para, f) = (out @ X, p', f')"
proof (cases rule: lineStep_cases [where l = l and f = f])
  case fence
  then show ?thesis by (simp add: lineStep_fence Let_def)
next
  case inFence
  then show ?thesis by (auto simp: lineStep_inFence)
next
  case blank
  then show ?thesis by (auto simp: lineStep_blank)
next
  case prose
  then show ?thesis by (auto simp: lineStep_text)
qed

lemma wrapLines_prefix: "\<exists>B. wrapLines I M ls (out, para, f) = out @ B"
proof (induction ls arbitrary: out para f)
  case Nil
  show ?case by (simp add: flushParagraph_eq)
next
  case (Cons l ls)
  from lineStep_prefix [of I M l out para f] obtain X p' f'
    where st: "lineStep I M l (out, para, f) = (out @ X, p', f')" by blast
  from Cons.IH [of "out @ X" p' f'] st show ?case by auto
qed

lemma wrapLines_long:
  assumes "\<forall>l \<in> set ls. \<not> isFenceLine l"
    and "w \<in> set (concat (map Fields para)) \<or> w \<in> set (concat (map Fields ls))"
    and "len w > M - len I"
  shows "I @ w \<in> set (wrapLines I M ls (out, para, False))"
  using assms(1,2)
proof (induction ls arbitrary: out para)
  case Nil
  with flushed_long [OF _ assms(3), of para] show ?case by (auto simp: flushParagraph_eq)
next
  case (Cons l ls)
  from Cons.prems(1) have nf: "\<not> isFenceLine l" and rest: "\<forall>l \<in> set ls. \<not> isFenceLine l"
    by simp_all
  show ?case
  proof (cases "TrimSpace l = []")
    case True
    then have fl: "Fields l = []" by (rule TrimSpace_empty_Fields)
    have eq: "wrapLines I M (l # ls) (out, para, False) =
        wrapLines I M ls (out @ flushed I M para @ [I], [], False)"
      using nf True by (simp add: lineStep_blank)
    from Cons.prems(2) fl consider "w \<in> set (concat (map Fields para))"
      | "w \<in> set (concat (map Fields ls))" by auto
    then show ?thesis
    proof cases
      case 1
      from flushed_long [OF 1 assms(3)] have m: "I @ w \<in> set (out @ flushed I M para @ [I])" by simp
      from wrapLines_prefix [of I M ls "out @ flushed I M para @ [I]" "[]" False] obtain B where
        B: "wrapLines I M ls (out @ flushed I M para @ [I], [], False) = (out @ flushed I M para @ [I]) @ B"
        by blast
      from m have "I @ w \<in> set ((out @ flushed I M para @ [I]) @ B)" by auto
      then show ?thesis unfolding eq B .
    next
      case 2
      then have "w \<in> set (concat (map Fields [])) \<or> w \<in> set (concat (map Fields ls))" by simp
      from Cons.IH [OF rest this] eq show ?thesis by simp
    qed
  next
    case False
    have eq: "wrapLines I M (l # ls) (out, para, False) =
        wrapLines I M ls (out, para @ [TrimSpace l], False)"
      using nf False by (simp add: lineStep_text)
    from Cons.prems(2) have "w \<in> set (concat (map Fields (para @ [TrimSpace l]))) \<or>
        w \<in> set (concat (map Fields ls))" by auto
    from Cons.IH [OF rest this] eq show ?thesis by simp
  qed
qed

lemma maxWidthFor_indent: "len I \<le> maxWidthFor I w"
  using len_nonneg [of I] by (simp add: maxWidthFor_def)

lemma bodyLines_nonempty: "bodyLines body \<noteq> []"
  by (simp add: bodyLines_def Split_nonempty)

lemma wrapPlainText_eq:
  "wrapPlainText body I w = wrapLines I (maxWidthFor I w) (bodyLines body) ([], [], False)"
  using bodyLines_nonempty [of body] by (simp add: wrapPlainText_def Let_def)

text \<open>
  C6, as the code has it. For a body with no fence line, every output line of
  \<open>wrapPlainText\<close> is at most \<open>max(width, len(indent) + 20)\<close> long, indent included,
  or it is the indent and a single word longer than the budget
  \<open>max(width, len(indent) + 20) - len(indent)\<close>; every such word has a line of its own;
  and the words of the output, indent taken off, are the words of the body, each once and
  in order. Lengths are what \<open>len\<close> counts.
\<close>

theorem wrapPlainText_reflow:
  assumes "\<forall>l \<in> set (bodyLines body). \<not> isFenceLine l"
  shows "(\<forall>l \<in> set (wrapPlainText body indent w).
            len l \<le> maxWidthFor indent w \<or>
            (\<exists>wd \<in> set (Fields body). len wd > maxWidthFor indent w - len indent \<and> l = indent @ wd)) \<and>
         (\<forall>wd \<in> set (Fields body). len wd > maxWidthFor indent w - len indent \<longrightarrow>
            indent @ wd \<in> set (wrapPlainText body indent w)) \<and>
         concat (map (\<lambda>l. Fields (drop (length indent) l)) (wrapPlainText body indent w)) = Fields body"
proof -
  let ?M = "maxWidthFor indent w"
  let ?ls = "bodyLines body"
  have words: "concat (map Fields ?ls) = Fields body" by (rule Fields_bodyLines)
  have sub: "\<forall>l \<in> set ?ls. \<not> isFenceLine l \<and> set (Fields l) \<subseteq> set (Fields body)"
  proof (intro ballI conjI)
    fix l assume l: "l \<in> set ?ls"
    with assms show "\<not> isFenceLine l" by blast
    from l have "set (Fields l) \<subseteq> set (concat (map Fields ?ls))" by auto
    with words show "set (Fields l) \<subseteq> set (Fields body)" by simp
  qed
  have "\<forall>x \<in> set (wrapLines indent ?M ?ls ([], [], False)). lineOk indent ?M (set (Fields body)) x"
    by (rule wrapLines_ok [OF maxWidthFor_indent sub]) simp_all
  then have a: "\<forall>l \<in> set (wrapPlainText body indent w).
            len l \<le> ?M \<or> (\<exists>wd \<in> set (Fields body). len wd > ?M - len indent \<and> l = indent @ wd)"
    by (simp add: wrapPlainText_eq lineOk_def)
  have b: "\<forall>wd \<in> set (Fields body). len wd > ?M - len indent \<longrightarrow>
            indent @ wd \<in> set (wrapPlainText body indent w)"
  proof (intro ballI impI)
    fix wd assume "wd \<in> set (Fields body)" and long: "len wd > ?M - len indent"
    with words have "wd \<in> set (concat (map Fields [])) \<or> wd \<in> set (concat (map Fields ?ls))"
      by simp
    from wrapLines_long [OF assms this long, of "[]"] show "indent @ wd \<in> set (wrapPlainText body indent w)"
      by (simp add: wrapPlainText_eq)
  qed
  have "wordsOf indent (wrapLines indent ?M ?ls ([], [], False)) = concat (map Fields ?ls)"
    using wrapLines_words [of False "[]" indent ?M ?ls "[]"] by simp
  with words have c: "concat (map (\<lambda>l. Fields (drop (length indent) l)) (wrapPlainText body indent w)) = Fields body"
    by (simp add: wrapPlainText_eq wordsOf_def)
  from a b c show ?thesis by blast
qed

theorem wrapPlainText_reflow_witness:
  "bodyLines body1 = [body1] \<and> \<not> isFenceLine body1 \<and>
   wrapPlainText body1 (str ''  '') 30 =
     [str ''  see'', str ''  https://example.com/a/very/long/path/that/does/not/fit'', str ''  ok''] \<and>
   str ''  '' @ str ''https://example.com/a/very/long/path/that/does/not/fit''
     \<in> set (wrapPlainText body1 (str ''  '') 30) \<and>
   concat (map (\<lambda>l. Fields (drop (length (str ''  '')) l)) (wrapPlainText body1 (str ''  '') 30))
     = Fields body1"
proof -
  have l: "bodyLines body1 = [body1]" by (simp add: body1_def reflow_defs)
  have f: "\<not> isFenceLine body1" by (simp add: body1_def reflow_defs)
  from l f have h: "\<forall>l \<in> set (bodyLines body1). \<not> isFenceLine l" by simp
  have v: "wrapPlainText body1 (str ''  '') 30 =
     [str ''  see'', str ''  https://example.com/a/very/long/path/that/does/not/fit'', str ''  ok'']"
    by (simp add: body1_def reflow_defs)
  have m: "str ''  '' @ str ''https://example.com/a/very/long/path/that/does/not/fit''
     \<in> set (wrapPlainText body1 (str ''  '') 30)"
    unfolding v by (simp add: str_def)
  from wrapPlainText_reflow [OF h, of "str ''  ''" 30] l f v m show ?thesis by blast
qed

text \<open>
  C6 as stated fails below the minimum width: at width 10 with a two-space indent the
  budget is 20, and three words of length 4 stay on one line of length 16.
\<close>

theorem wrapPlainText_width_counterexample:
  "wrapPlainText (str ''aaaa bbbb cccc'') (str ''  '') 10 = [str ''  aaaa bbbb cccc''] \<and>
   len (str ''  aaaa bbbb cccc'') = 16 \<and>
   Fields (str ''aaaa bbbb cccc'') = [str ''aaaa'', str ''bbbb'', str ''cccc''] \<and>
   len (str ''aaaa'') = 4 \<and> len (str ''bbbb'') = 4 \<and> len (str ''cccc'') = 4 \<and>
   bodyLines (str ''aaaa bbbb cccc'') = [str ''aaaa bbbb cccc''] \<and>
   \<not> isFenceLine (str ''aaaa bbbb cccc'')"
  by (simp add: reflow_defs)

lemma lineStep_toggle:
  "snd (snd (lineStep I M l (out, para, f))) = (if isFenceLine l then \<not> f else f)"
proof (cases rule: lineStep_cases [where l = l and f = f])
  case fence
  then show ?thesis by (simp add: lineStep_fence Let_def)
next
  case inFence
  then show ?thesis by (auto simp: lineStep_inFence)
next
  case blank
  then show ?thesis by (auto simp: lineStep_blank)
next
  case prose
  then show ?thesis by (auto simp: lineStep_text)
qed

lemma runLines_parity:
  "snd (snd (runLines I M ls st)) = (snd (snd st) \<noteq> odd (length (filter isFenceLine ls)))"
proof (induction ls arbitrary: st)
  case Nil
  show ?case by simp
next
  case (Cons l ls)
  obtain out para f where st: "st = (out, para, f)" by (cases st)
  from Cons.IH [of "lineStep I M l st"] lineStep_toggle [of I M l out para f] st
  show ?case by auto
qed

lemma runLines_code:
  "\<forall>l \<in> set ls. \<not> isFenceLine l \<Longrightarrow>
   runLines I M ls (out, [], True) = (out @ map (\<lambda>l. I @ l) ls, [], True)"
  by (induction ls arbitrary: out) (simp_all add: lineStep_inFence)

lemma flushed_Nil [simp]: "flushed I M [] = []"
  by (simp add: flushed_def)

lemma isFenceLine_nonempty: "isFenceLine l \<Longrightarrow> l \<noteq> []"
  by (auto simp: isFenceLine_def HasPrefix_def TrimSpace_def str_def)

text \<open>
  C7. When the lines of the body are \<open>before\<close>, an opening fence line, the lines
  \<open>block\<close>, a closing fence line and \<open>rest\<close>, the output is: the output \<open>A\<close> for
  \<open>before\<close>; a blank line if \<open>A\<close> is not empty and does not end in one; the opening
  fence line; every line of \<open>block\<close>, each once, in order, with the indent put before it
  and nothing else changed; a blank line unless \<open>block\<close> ends in an empty line; the
  closing fence line; then what the loop appends for \<open>rest\<close>. The width is in \<open>A\<close> and
  in what follows the block only.
\<close>

theorem wrapPlainText_fence:
  assumes lines: "bodyLines body = before @ opening # block @ closing # rest"
    and op: "isFenceLine opening" and cl: "isFenceLine closing"
    and blk: "\<forall>l \<in> set block. \<not> isFenceLine l"
    and ev: "even (length (filter isFenceLine before))"
  shows "let M = maxWidthFor indent w;
             A = wrapLines indent M before ([], [], False);
             X = A @ (if A \<noteq> [] \<and> last A \<noteq> indent then [indent] else []) @
                 [indent @ opening] @ map (\<lambda>l. indent @ l) block @
                 (if block \<noteq> [] \<and> last block = [] then [] else [indent]) @
                 [indent @ closing]
         in \<exists>B. wrapPlainText body indent w = X @ B \<and>
                 wrapLines indent M rest (X, [], False) = X @ B"
proof -
  let ?M = "maxWidthFor indent w"
  let ?A = "wrapLines indent ?M before ([], [], False)"
  let ?sepA = "if ?A \<noteq> [] \<and> last ?A \<noteq> indent then [indent] else []"
  let ?sepB = "if block \<noteq> [] \<and> last block = [] then [] else [indent]"
  let ?X = "?A @ ?sepA @ [indent @ opening]"
  let ?Y = "?X @ map (\<lambda>l. indent @ l) block"
  let ?Z = "?Y @ ?sepB @ [indent @ closing]"
  obtain o1 p1 f1 where s1: "runLines indent ?M before ([], [], False) = (o1, p1, f1)"
    by (cases "runLines indent ?M before ([], [], False)")
  from runLines_parity [of indent ?M before "([], [], False)"] s1 ev have f1: "f1 = False" by simp
  from wrapLines_append [of indent ?M before "[]" "([], [], False)"] s1
  have A: "?A = o1 @ flushed indent ?M p1" by (simp add: flushParagraph_eq)
  from op s1 f1 A have s2: "lineStep indent ?M opening (o1, p1, f1) = (?X, [], True)"
    by (simp add: lineStep_fence Let_def)
  from runLines_code [OF blk, of indent ?M ?X]
  have s3: "runLines indent ?M block (?X, [], True) = (?Y, [], True)" .
  have lastY: "last ?Y = indent @ last (opening # block)"
    by (cases block rule: rev_cases) simp_all
  from isFenceLine_nonempty [OF op] have "(last ?Y \<noteq> indent) = (\<not> (block \<noteq> [] \<and> last block = []))"
    unfolding lastY by (cases block rule: rev_cases) simp_all
  with cl have s4: "lineStep indent ?M closing (?Y, [], True) = (?Z, [], False)"
    by (simp add: lineStep_fence Let_def)
  have "wrapPlainText body indent w = wrapLines indent ?M (before @ opening # block @ closing # rest) ([], [], False)"
    by (simp add: wrapPlainText_eq lines)
  also have "\<dots> = wrapLines indent ?M (opening # block @ closing # rest) (o1, p1, f1)"
    by (simp add: wrapLines_append s1)
  also have "\<dots> = wrapLines indent ?M (block @ closing # rest) (?X, [], True)"
    using s2 by simp
  also have "\<dots> = wrapLines indent ?M (closing # rest) (?Y, [], True)"
    by (simp only: wrapLines_append s3)
  also have "\<dots> = wrapLines indent ?M rest (?Z, [], False)"
    using s4 by simp
  finally have eq: "wrapPlainText body indent w = wrapLines indent ?M rest (?Z, [], False)" .
  from wrapLines_prefix [of indent ?M rest ?Z "[]" False] obtain B where
    "wrapLines indent ?M rest (?Z, [], False) = ?Z @ B" by blast
  with eq show ?thesis by (simp add: Let_def)
qed

theorem wrapPlainText_fence_witness:
  "bodyLines body2 = [str ''a''] @ str ''```'' # [str ''code  here''] @ str ''```'' # [str ''b''] \<and>
   isFenceLine (str ''```'') \<and> \<not> isFenceLine (str ''code  here'') \<and>
   even (length (filter isFenceLine [str ''a''])) \<and>
   wrapPlainText body2 (str ''  '') 30 =
     [str ''  a'', str ''  '', str ''  ```'', str ''  code  here'', str ''  '', str ''  ```'', str ''  b'']"
proof -
  have l: "bodyLines body2 = [str ''a''] @ str ''```'' # [str ''code  here''] @ str ''```'' # [str ''b'']"
    by (simp add: body2_def reflow_defs)
  have f: "isFenceLine (str ''```'')" by (simp add: reflow_defs)
  have c: "\<not> isFenceLine (str ''code  here'')" by (simp add: reflow_defs)
  then have c': "\<forall>l \<in> set [str ''code  here'']. \<not> isFenceLine l" by simp
  have e: "even (length (filter isFenceLine [str ''a'']))" by (simp add: reflow_defs)
  have a: "wrapLines (str ''  '') (maxWidthFor (str ''  '') 30) [str ''a''] ([], [], False) = [str ''  a'']"
    by (simp add: reflow_defs)
  have r: "wrapLines (str ''  '') (maxWidthFor (str ''  '') 30) [str ''b'']
      ([str ''  a'', str ''  '', str ''  ```'', str ''  code  here'', str ''  '', str ''  ```''], [], False) =
     [str ''  a'', str ''  '', str ''  ```'', str ''  code  here'', str ''  '', str ''  ```'', str ''  b'']"
    by (simp add: reflow_defs)
  from wrapPlainText_fence [OF l f f c' e, of "str ''  ''" 30]
  have "wrapLines (str ''  '') (maxWidthFor (str ''  '') 30) [str ''b'']
      ([str ''  a'', str ''  '', str ''  ```'', str ''  code  here'', str ''  '', str ''  ```''], [], False) =
      wrapPlainText body2 (str ''  '') 30"
    unfolding Let_def a by (auto simp: str_def)
  with r l f c e show ?thesis by simp
qed

end
